theory Spec2Isabelle
  imports Complex_Main "HOL-Library.AList" "HOL-Library.Code_Target_Nat"
begin

section \<open>Expense tracker (Expense\_Tracker.py): a shallow embedding\<close>

text \<open>
  The program is a sequential command-line tool.  Its state is the set of month-scoped
  files, the lines still to be typed on the console, and what it has printed so far.
  Every function of the source becomes a function on that state; every exception the
  source can raise becomes an \<open>Inl\<close> result.

  Strings are lists of characters whose codes are the code points below 256.
  Python floats are modelled by their values: a finite float is the rational number it
  denotes, and the negative zero, the two infinities and NaN are separate values.
  \<open>float\<close> maps a decimal beyond the range of doubles to an infinity or to a zero;
  arithmetic on finite values is exact, rounding to 53 bits is outside the model.
\<close>

subsection \<open>Exceptions\<close>

datatype exn = ValueError | ZeroDivisionError | EOFError | OverflowError

subsection \<open>Python string operations used by the source\<close>

definition is_space :: "char \<Rightarrow> bool" where
  \<comment> \<open>the characters below 256 that \<open>str.isspace\<close> accepts\<close>
  "is_space c \<longleftrightarrow> c \<in> {CHR 0x09, CHR 0x0A, CHR 0x0B, CHR 0x0C, CHR 0x0D,
                         CHR 0x1C, CHR 0x1D, CHR 0x1E, CHR 0x1F, CHR 0x20,
                         CHR 0x85, CHR 0xA0}"

definition strip :: "string \<Rightarrow> string" where
  \<comment> \<open>\<open>str.strip()\<close>\<close>
  "strip s = rev (dropWhile is_space (rev (dropWhile is_space s)))"

definition number_blank :: "char \<Rightarrow> bool" where
  \<comment> \<open>the characters below 256 that \<open>float\<close> and \<open>int\<close> skip around a number: the ASCII
      blanks, and the two other blanks that they first replace by a space\<close>
  "number_blank c \<longleftrightarrow> c \<in> {CHR 0x09, CHR 0x0A, CHR 0x0B, CHR 0x0C, CHR 0x0D, CHR 0x20,
                              CHR 0x85, CHR 0xA0}"

definition strip_number :: "string \<Rightarrow> string" where
  "strip_number s = rev (dropWhile number_blank (rev (dropWhile number_blank s)))"

definition lower_char :: "char \<Rightarrow> char" where
  "lower_char c =
     (case map_of (zip ''ABCDEFGHIJKLMNOPQRSTUVWXYZ'' ''abcdefghijklmnopqrstuvwxyz'') c of
        Some d \<Rightarrow> d | None \<Rightarrow> c)"

definition lower :: "string \<Rightarrow> string" where
  \<comment> \<open>\<open>str.lower()\<close> on the ASCII letters\<close>
  "lower s = map lower_char s"

fun split_on :: "char \<Rightarrow> string \<Rightarrow> string list" where
  \<comment> \<open>\<open>s.split(sep)\<close> for a one-character separator: never an empty list\<close>
  "split_on sep [] = [[]]"
| "split_on sep (c # cs) =
     (if c = sep then [] # split_on sep cs
      else (case split_on sep cs of
              [] \<Rightarrow> [[c]]
            | w # ws \<Rightarrow> (c # w) # ws))"

subsection \<open>Decimal digits\<close>

definition digit_of :: "char \<Rightarrow> nat option" where
  "digit_of c = map_of (zip ''0123456789'' [0, 1, 2, 3, 4, 5, 6, 7, 8, 9]) c"

fun digit_chars :: "nat \<Rightarrow> string" where
  \<comment> \<open>the decimal digits of a natural number, most significant first\<close>
  "digit_chars n =
     (if n < 10 then [''0123456789'' ! n]
      else digit_chars (n div 10) @ [''0123456789'' ! (n mod 10)])"

declare digit_chars.simps [simp del]

fun digits_value :: "nat list \<Rightarrow> nat" where
  \<comment> \<open>the number written by a list of digits, most significant first\<close>
  "digits_value ds = foldl (\<lambda>acc d. 10 * acc + d) 0 ds"

fun digitpart :: "string \<Rightarrow> nat list option" where
  \<comment> \<open>Python's \<open>digitpart ::= digit (["_"] digit)*\<close>: the digits, underscores dropped\<close>
  "digitpart [] = None"
| "digitpart [c] = map_option (\<lambda>d. [d]) (digit_of c)"
| "digitpart (c # c' # cs) =
     (case digit_of c of
        None \<Rightarrow> None
      | Some d \<Rightarrow>
          map_option ((#) d)
            (if c' = CHR ''_'' then digitpart cs else digitpart (c' # cs)))"

definition zfill :: "nat \<Rightarrow> string \<Rightarrow> string" where
  \<comment> \<open>left padding with zeros to a minimum width, as the format codes \<open>02d\<close>, \<open>04d\<close> do\<close>
  "zfill w s = replicate (w - length s) CHR ''0'' @ s"

subsection \<open>Floats\<close>

datatype pyfloat = Fin rat | NZero | PInf | NInf | NaN
  \<comment> \<open>\<open>Fin 0\<close> is the positive zero, \<open>NZero\<close> the negative zero\<close>

definition truthy :: "pyfloat \<Rightarrow> bool" where
  \<comment> \<open>the truth value of a float in a condition: false only for the two zeros\<close>
  "truthy x \<longleftrightarrow> x \<noteq> Fin 0 \<and> x \<noteq> NZero"

fun sign_bit :: "pyfloat \<Rightarrow> bool" where
  "sign_bit (Fin a) = (a < 0)"
| "sign_bit NZero = True"
| "sign_bit NInf = True"
| "sign_bit PInf = False"
| "sign_bit NaN = False"

fun finite_value :: "pyfloat \<Rightarrow> rat option" where
  "finite_value (Fin a) = Some a"
| "finite_value NZero = Some 0"
| "finite_value PInf = None"
| "finite_value NInf = None"
| "finite_value NaN = None"

definition signed_inf :: "bool \<Rightarrow> pyfloat" where
  "signed_inf negative = (if negative then NInf else PInf)"

definition signed_zero :: "bool \<Rightarrow> pyfloat" where
  "signed_zero negative = (if negative then NZero else Fin 0)"

fun float_lt :: "pyfloat \<Rightarrow> pyfloat \<Rightarrow> bool" where
  \<comment> \<open>\<open>x < y\<close>: every comparison with NaN is false, the two zeros are equal\<close>
  "float_lt NaN _ = False"
| "float_lt _ NaN = False"
| "float_lt (Fin a) (Fin b) = (a < b)"
| "float_lt (Fin a) NZero = (a < 0)"
| "float_lt NZero (Fin b) = (0 < b)"
| "float_lt NZero NZero = False"
| "float_lt _ NInf = False"
| "float_lt NInf _ = True"
| "float_lt PInf _ = False"
| "float_lt _ PInf = True"

fun float_ge :: "pyfloat \<Rightarrow> pyfloat \<Rightarrow> bool" where
  \<comment> \<open>\<open>x >= y\<close>\<close>
  "float_ge NaN _ = False"
| "float_ge _ NaN = False"
| "float_ge (Fin a) (Fin b) = (a \<ge> b)"
| "float_ge (Fin a) NZero = (a \<ge> 0)"
| "float_ge NZero (Fin b) = (0 \<ge> b)"
| "float_ge NZero NZero = True"
| "float_ge _ NInf = True"
| "float_ge NInf _ = False"
| "float_ge PInf _ = True"
| "float_ge _ PInf = False"

fun float_neg :: "pyfloat \<Rightarrow> pyfloat" where
  "float_neg (Fin a) = (if a = 0 then NZero else Fin (- a))"
| "float_neg NZero = Fin 0"
| "float_neg PInf = NInf"
| "float_neg NInf = PInf"
| "float_neg NaN = NaN"

fun float_add :: "pyfloat \<Rightarrow> pyfloat \<Rightarrow> pyfloat" where
  \<comment> \<open>a sum that is zero is the positive zero, unless both terms are the negative zero\<close>
  "float_add NaN _ = NaN"
| "float_add _ NaN = NaN"
| "float_add NZero y = y"
| "float_add x NZero = x"
| "float_add (Fin a) (Fin b) = Fin (a + b)"
| "float_add PInf NInf = NaN"
| "float_add NInf PInf = NaN"
| "float_add PInf _ = PInf"
| "float_add _ PInf = PInf"
| "float_add NInf _ = NInf"
| "float_add _ NInf = NInf"

definition float_sub :: "pyfloat \<Rightarrow> pyfloat \<Rightarrow> pyfloat" where
  "float_sub x y = float_add x (float_neg y)"

definition float_mul :: "pyfloat \<Rightarrow> pyfloat \<Rightarrow> pyfloat" where
  \<comment> \<open>the sign of a zero or infinite product is the product of the signs\<close>
  "float_mul x y =
     (if x = NaN \<or> y = NaN then NaN
      else
        (let negative = (sign_bit x \<noteq> sign_bit y) in
         case (finite_value x, finite_value y) of
           (Some a, Some b) \<Rightarrow> if a * b = 0 then signed_zero negative else Fin (a * b)
         | (Some a, None) \<Rightarrow> if a = 0 then NaN else signed_inf negative
         | (None, Some b) \<Rightarrow> if b = 0 then NaN else signed_inf negative
         | (None, None) \<Rightarrow> signed_inf negative))"

definition float_quot :: "pyfloat \<Rightarrow> pyfloat \<Rightarrow> pyfloat" where
  \<comment> \<open>the quotient the hardware computes; Python reaches it only for a divisor other
      than zero, numpy for every divisor\<close>
  "float_quot x y =
     (if x = NaN \<or> y = NaN then NaN
      else
        (let negative = (sign_bit x \<noteq> sign_bit y) in
         case (finite_value x, finite_value y) of
           (Some a, Some b) \<Rightarrow>
             if b = 0 then (if a = 0 then NaN else signed_inf negative)
             else if a = 0 then signed_zero negative
             else Fin (a / b)
         | (Some a, None) \<Rightarrow> signed_zero negative
         | (None, Some b) \<Rightarrow> signed_inf negative
         | (None, None) \<Rightarrow> NaN))"

definition float_div :: "pyfloat \<Rightarrow> pyfloat \<Rightarrow> exn + pyfloat" where
  \<comment> \<open>\<open>x / y\<close>: a zero divisor raises whatever the dividend is\<close>
  "float_div x y = (if truthy y then Inr (float_quot x y) else Inl ZeroDivisionError)"

subsection \<open>\<open>float(s)\<close> and \<open>int(s)\<close>\<close>

definition take_sign :: "string \<Rightarrow> bool \<times> string" where
  \<comment> \<open>an optional leading sign: whether it is a minus, and the rest\<close>
  "take_sign s =
     (case s of
        c # cs \<Rightarrow> if c = CHR ''-'' then (True, cs)
                  else if c = CHR ''+'' then (False, cs)
                  else (False, s)
      | [] \<Rightarrow> (False, s))"

definition pow10 :: "int \<Rightarrow> rat" where
  "pow10 e = (if 0 \<le> e then 10 ^ nat e else 1 / 10 ^ nat (- e))"

definition split_first :: "(char \<Rightarrow> bool) \<Rightarrow> string \<Rightarrow> string \<times> string option" where
  \<comment> \<open>the text before the first character satisfying \<open>P\<close>, and the text after it if any\<close>
  "split_first P s =
     (case dropWhile (\<lambda>c. \<not> P c) s of
        [] \<Rightarrow> (s, None)
      | _ # rest \<Rightarrow> (takeWhile (\<lambda>c. \<not> P c) s, Some rest))"

definition parse_exponent :: "string option \<Rightarrow> int option" where
  \<comment> \<open>\<open>exponent ::= ("e" | "E") ["+" | "-"] digitpart\<close>, the letter already consumed\<close>
  "parse_exponent t =
     (case t of
        None \<Rightarrow> Some 0
      | Some u \<Rightarrow>
          (let (neg, ds) = take_sign u in
           map_option (\<lambda>d. if neg then - int (digits_value d) else int (digits_value d))
             (digitpart ds)))"

definition parse_mantissa :: "string \<Rightarrow> rat option" where
  \<comment> \<open>\<open>digitpart ["." [digitpart]] | "." digitpart\<close>\<close>
  "parse_mantissa m =
     (case split_first (\<lambda>c. c = CHR ''.'') m of
        (ip, None) \<Rightarrow> map_option (\<lambda>d. of_nat (digits_value d)) (digitpart ip)
      | (ip, Some fp) \<Rightarrow>
          (if ip = [] \<and> fp = [] then None
           else (case (if ip = [] then Some [] else digitpart ip,
                       if fp = [] then Some [] else digitpart fp) of
                   (Some i, Some f) \<Rightarrow>
                     Some (of_nat (digits_value i) + of_nat (digits_value f) / 10 ^ length f)
                 | _ \<Rightarrow> None)))"

definition parse_decimal :: "string \<Rightarrow> rat option" where
  \<comment> \<open>an unsigned decimal number: a mantissa and an optional exponent\<close>
  "parse_decimal body =
     (case split_first (\<lambda>c. c = CHR ''e'' \<or> c = CHR ''E'') body of
        (m, t) \<Rightarrow>
          (case (parse_mantissa m, parse_exponent t) of
             (Some q, Some e) \<Rightarrow> Some (q * pow10 e)
           | _ \<Rightarrow> None))"

definition float_overflow :: rat where
  \<comment> \<open>the least magnitude that rounds to an infinity, \<open>2 ^ 1024 - 2 ^ 970\<close>: halfway
      between the largest double and \<open>2 ^ 1024\<close>\<close>
  "float_overflow =
     179769313486231580793728971405303415079934132710037826936173778980444968292764750946649017977587207096330286416692887910946555547851940402630657488671505820681908902000708383676273854845817711531764475730270069855571366959622842914819860834936475292719074168444365510704342711559699508093042880177904174497792"

definition float_underflow :: rat where
  \<comment> \<open>the greatest magnitude that rounds to a zero, \<open>1 / 2 ^ 1075\<close>: half the smallest
      double\<close>
  "float_underflow =
     1 / 404804506614621236704990693437834614099113299528284236713802716054860679135990693783920767402874248990374155728633623822779617474771586953734026799881477019843034848553132722728933815484186432682479535356945490137124014966849385397236206711298319112681620113024717539104666829230461005064372655017292012526615415482186989568"

definition float_of_decimal :: "bool \<Rightarrow> rat \<Rightarrow> pyfloat" where
  \<comment> \<open>the float for a sign and a magnitude\<close>
  "float_of_decimal negative q =
     (if float_overflow \<le> q then signed_inf negative
      else if q \<le> float_underflow then signed_zero negative
      else Fin (if negative then - q else q))"

definition float_of_str :: "string \<Rightarrow> pyfloat option" where
  \<comment> \<open>\<open>float(s)\<close>; \<open>None\<close> stands for the \<open>ValueError\<close> it raises\<close>
  "float_of_str s =
     (let (neg, body) = take_sign (strip_number s) in
      if lower body = ''inf'' \<or> lower body = ''infinity'' then Some (signed_inf neg)
      else if lower body = ''nan'' then Some NaN
      else map_option (float_of_decimal neg) (parse_decimal body))"

definition int_of_str :: "string \<Rightarrow> int option" where
  \<comment> \<open>\<open>int(s)\<close> in base 10; \<open>None\<close> stands for the \<open>ValueError\<close> it raises\<close>
  "int_of_str s =
     (let (neg, body) = take_sign (strip_number s) in
      map_option (\<lambda>d. if neg then - int (digits_value d) else int (digits_value d))
        (digitpart body))"

subsection \<open>\<open>str(x)\<close> for a float\<close>

text \<open>
  \<open>str\<close> of a float is its \<open>repr\<close>: the shortest decimal that reads back as the same
  float, in positional notation when the decimal point position lies in \<open>(-4, 16]\<close> and
  in exponent notation otherwise.  On exact values the shortest decimal that reads back
  as a decimal number is that number, written in full.  A value with no finite decimal
  expansion (a quotient; the program never writes one to a file) is rounded to 17
  significant digits, the most that \<open>repr\<close> prints.
\<close>

function dec_places :: "nat \<Rightarrow> nat option" where
  \<comment> \<open>for a denominator \<open>d\<close>: some \<open>j\<close> with \<open>d\<close> dividing \<open>10 ^ j\<close>, if there is one\<close>
  "dec_places d =
     (if d \<le> 1 then Some 0
      else if gcd d 10 = 1 then None
      else map_option Suc (dec_places (d div gcd d 10)))"
  by pat_completeness auto
termination
proof (relation "measure id")
  show "wf (measure id)" by simp
next
  fix d :: nat
  assume d: "\<not> d \<le> 1" and g: "gcd d 10 \<noteq> 1"
  have "gcd d 10 \<noteq> 0" by simp
  with g have "1 < gcd d 10" by arith
  moreover have "0 < d" using d by arith
  ultimately have "d div gcd d 10 < d" by (rule div_less_dividend)
  then show "(d div gcd d 10, d) \<in> measure id" by simp
qed

declare dec_places.simps [simp del]

definition decpt :: "rat \<Rightarrow> int" where
  \<comment> \<open>for \<open>a > 0\<close>, the \<open>p\<close> with \<open>10 ^ (p - 1) \<le> a < 10 ^ p\<close>\<close>
  "decpt a =
     (let (n, d) = quotient_of a;
          p = int (length (digit_chars (nat n))) - int (length (digit_chars (nat d)))
      in if a < pow10 p then p else p + 1)"

definition strip_zeros :: "string \<Rightarrow> string" where
  "strip_zeros s = rev (dropWhile (\<lambda>c. c = CHR ''0'') (rev s))"

definition shortest_digits :: "rat \<Rightarrow> string \<times> int" where
  \<comment> \<open>for \<open>a > 0\<close>: significant digits \<open>d1 ... dn\<close> and \<open>p\<close> with \<open>a = 0.d1...dn * 10 ^ p\<close>\<close>
  "shortest_digits a =
     (case dec_places (nat (snd (quotient_of a))) of
        Some j \<Rightarrow>
          (let ds = digit_chars (nat \<lfloor>a * 10 ^ j\<rfloor>)
           in (strip_zeros ds, int (length ds) - int j))
      | None \<Rightarrow>
          (let p = decpt a;
               ds = digit_chars (nat \<lfloor>a * pow10 (17 - p) + 1 / 2\<rfloor>)
           in (strip_zeros ds, if length ds > 17 then p + 1 else p)))"

definition format_repr :: "string \<Rightarrow> int \<Rightarrow> string" where
  "format_repr ds p =
     (if p \<le> - 4 \<or> p > 16 then
        take 1 ds @ (if length ds > 1 then ''.'' @ drop 1 ds else []) @ ''e''
          @ (if p - 1 < 0 then ''-'' else ''+'') @ zfill 2 (digit_chars (nat \<bar>p - 1\<bar>))
      else if p \<le> 0 then ''0.'' @ replicate (nat (- p)) CHR ''0'' @ ds
      else if nat p < length ds then take (nat p) ds @ ''.'' @ drop (nat p) ds
      else ds @ replicate (nat p - length ds) CHR ''0'' @ ''.0'')"

fun float_str :: "pyfloat \<Rightarrow> string" where
  "float_str NaN = ''nan''"
| "float_str PInf = ''inf''"
| "float_str NInf = ''-inf''"
| "float_str NZero = ''-0.0''"
| "float_str (Fin r) =
     (if r = 0 then ''0.0''
      else (if r < 0 then ''-'' else [])
             @ (case shortest_digits \<bar>r\<bar> of (ds, p) \<Rightarrow> format_repr ds p))"

subsection \<open>Dates\<close>

record date =
  year :: nat
  month :: nat
  day :: nat

definition isleap :: "nat \<Rightarrow> bool" where
  "isleap y \<longleftrightarrow> y mod 4 = 0 \<and> (y mod 100 \<noteq> 0 \<or> y mod 400 = 0)"

definition mdays :: "nat list" where
  "mdays = [0, 31, 28, 31, 30, 31, 30, 31, 31, 30, 31, 30, 31]"

definition monthrange_days :: "nat \<Rightarrow> nat \<Rightarrow> nat" where
  \<comment> \<open>\<open>calendar.monthrange(year, month)[1]\<close>, for a month in 1..12\<close>
  "monthrange_days y m = mdays ! m + (if m = 2 \<and> isleap y then 1 else 0)"

definition valid_date :: "date \<Rightarrow> bool" where
  \<comment> \<open>the values a \<open>datetime.date\<close> can hold\<close>
  "valid_date d \<longleftrightarrow>
     1 \<le> year d \<and> year d \<le> 9999 \<and> 1 \<le> month d \<and> month d \<le> 12 \<and>
     1 \<le> day d \<and> day d \<le> monthrange_days (year d) (month d)"

definition date_str :: "date \<Rightarrow> string" where
  \<comment> \<open>\<open>str(date)\<close>: ISO format\<close>
  "date_str d =
     zfill 4 (digit_chars (year d)) @ ''-'' @ zfill 2 (digit_chars (month d)) @ ''-''
       @ zfill 2 (digit_chars (day d))"

definition prev_month_date :: "date \<Rightarrow> exn + date" where
  \<comment> \<open>\<open>today.replace(day=1) - datetime.timedelta(days=1)\<close>; no date precedes 0001-01-01\<close>
  "prev_month_date today =
     (if month today = 1 then
        (if year today \<le> 1 then Inl OverflowError
         else Inr \<lparr>year = year today - 1, month = 12, day = 31\<rparr>)
      else Inr \<lparr>year = year today, month = month today - 1,
                day = monthrange_days (year today) (month today - 1)\<rparr>)"

definition month_label :: "date \<Rightarrow> string" where
  "month_label d = digit_chars (year d) @ ''-'' @ zfill 2 (digit_chars (month d))"

definition expense_file_for :: "date \<Rightarrow> string" where
  "expense_file_for d = ''expenses_'' @ month_label d @ ''.csv''"

definition budget_file_for :: "date \<Rightarrow> string" where
  "budget_file_for d = ''budget_'' @ month_label d @ ''.txt''"

subsection \<open>Data classes and constants\<close>

record Expense =
  name :: string
  category :: string
  amount :: pyfloat

type_synonym symbol = "nat list"
  \<comment> \<open>an emoji, as its Unicode code points\<close>

definition EXPENSE_CATEGORIES :: "(string \<times> symbol) list" where
  "EXPENSE_CATEGORIES =
     [(''Food'', [0x1F354]), (''Transport'', [0x1F68C]), (''Home'', [0x1F3E0]),
      (''Utilities'', [0x1F4A1]), (''Groceries'', [0x1F6D2]),
      (''Entertainment'', [0x1F3AE]), (''Health'', [0x1F48A]),
      (''Education'', [0x1F4DA]), (''Shopping'', [0x1F6CD, 0xFE0F]),
      (''Work'', [0x1F4BC]), (''Travel'', [0x2708, 0xFE0F]),
      (''Miscellaneous'', [0x1F4E6])]"

subsection \<open>The world: files, console input, console output\<close>

text \<open>
  What the program prints is recorded as a list of events, one constructor for each
  \<open>print\<close> or \<open>input\<close> prompt of the source, carrying the values the message formats.
  A chart that is shown is recorded as the three lists handed to \<open>pyplot.pie\<close>.
\<close>

datatype event =
    Ask_same_budget date pyfloat
  | Ask_budget date
  | Budget_must_be_positive
  | Invalid_number
  | Enter_new_expense
  | Ask_name
  | Ask_amount
  | Amount_must_be_positive
  | Select_category
  | Menu_line nat symbol string
  | Ask_choice nat
  | Invalid_selection
  | Please_enter_number
  | Expense_saved
  | No_expenses
  | Skipping_malformed_line string
  | Summary_header
  | Category_line symbol string pyfloat pyfloat
  | Total_spent pyfloat
  | Budget_remaining pyfloat
  | Daily_budget_left pyfloat
  | Ask_pie_chart
  | Pie_chart "string list" "pyfloat list" "pyfloat list"

record world =
  files :: "string \<rightharpoonup> string"
  stdin :: "string list"
  stdout :: "event list"

definition print :: "event \<Rightarrow> world \<Rightarrow> world" where
  "print e w = w\<lparr>stdout := stdout w @ [e]\<rparr>"

definition input :: "event \<Rightarrow> world \<Rightarrow> (exn + string) \<times> world" where
  \<comment> \<open>\<open>input(prompt)\<close>: the prompt is shown, then a line is read; end of input raises\<close>
  "input prompt w =
     (case stdin w of
        [] \<Rightarrow> (Inl EOFError, print prompt w)
      | l # ls \<Rightarrow> (Inr l, print prompt (w\<lparr>stdin := ls\<rparr>)))"

definition store_text :: "world \<Rightarrow> string \<Rightarrow> string" where
  \<comment> \<open>the content of a file; an absent file has none\<close>
  "store_text w path = (case files w path of None \<Rightarrow> [] | Some text \<Rightarrow> text)"

definition write_text :: "string \<Rightarrow> string \<Rightarrow> world \<Rightarrow> world" where
  \<comment> \<open>\<open>path.write_text(data)\<close>: the file is created or replaced\<close>
  "write_text path data w = w\<lparr>files := (files w)(path \<mapsto> data)\<rparr>"

definition append_text :: "string \<Rightarrow> string \<Rightarrow> world \<Rightarrow> world" where
  \<comment> \<open>writing to a file opened in mode \<open>"a"\<close>: the file is created if absent\<close>
  "append_text path data w =
     w\<lparr>files := (files w)(path \<mapsto> store_text w path @ data)\<rparr>"

fun universal_newlines :: "string \<Rightarrow> string" where
  \<comment> \<open>reading in text mode: \<open>\r\n\<close> and \<open>\r\<close> become \<open>\n\<close>\<close>
  "universal_newlines [] = []"
| "universal_newlines [c] = [if c = CHR 0x0D then CHR 0x0A else c]"
| "universal_newlines (c # d # cs) =
     (if c = CHR 0x0D \<and> d = CHR 0x0A then CHR 0x0A # universal_newlines cs
      else if c = CHR 0x0D then CHR 0x0A # universal_newlines (d # cs)
      else c # universal_newlines (d # cs))"

fun lines_of :: "string \<Rightarrow> string list" where
  \<comment> \<open>the lines a file iterator yields, each with its terminator if it has one\<close>
  "lines_of [] = []"
| "lines_of (c # cs) =
     (if c = CHR 0x0A then [c] # lines_of cs
      else (case lines_of cs of
              [] \<Rightarrow> [[c]]
            | l # ls \<Rightarrow> (c # l) # ls))"

subsection \<open>Budget management\<close>

text \<open>
  The \<open>while True\<close> loops read one console line per iteration, so they are recursive
  functions that terminate because the remaining input gets shorter; when the input
  runs out, \<open>input\<close> raises \<open>EOFError\<close>, which no handler of the source catches.
\<close>

function budget_loop :: "date \<Rightarrow> world \<Rightarrow> (exn + pyfloat) \<times> world" where
  "budget_loop today w =
     (case input (Ask_budget today) w of
        (Inl e, w1) \<Rightarrow> (Inl e, w1)
      | (Inr s, w1) \<Rightarrow>
          (case float_of_str s of
             None \<Rightarrow> budget_loop today (print Invalid_number w1)
           | Some new_budget \<Rightarrow>
               if float_lt new_budget (Fin 0)
               then budget_loop today (print Budget_must_be_positive w1)
               else (Inr new_budget, w1)))"
  by pat_completeness auto
termination
  by (relation "measure (\<lambda>(today, w). length (stdin w))")
     (auto simp: input_def print_def split: list.splits)

declare budget_loop.simps [simp del]

definition load_or_create_budget :: "date \<Rightarrow> world \<Rightarrow> (exn + pyfloat) \<times> world" where
  "load_or_create_budget today w =
     (let this_month_budget = budget_file_for today in
      case files w this_month_budget of
        Some text \<Rightarrow>
          \<comment> \<open>1. Already have a budget for this month\<close>
          (case float_of_str (strip text) of
             None \<Rightarrow> (Inl ValueError, w)
           | Some b \<Rightarrow> (Inr b, w))
      | None \<Rightarrow>
          \<comment> \<open>2. Maybe reuse last month's budget?\<close>
          (case prev_month_date today of
             Inl e \<Rightarrow> (Inl e, w)
           | Inr prev_month \<Rightarrow>
               (let fresh = (\<lambda>w0.
                      \<comment> \<open>3. Ask for a fresh budget\<close>
                      (case budget_loop today w0 of
                         (Inl e, w1) \<Rightarrow> (Inl e, w1)
                       | (Inr new_budget, w1) \<Rightarrow>
                           (Inr new_budget,
                            write_text this_month_budget (float_str new_budget) w1)))
                in
                case (if day today = 1 then files w (budget_file_for prev_month) else None) of
                  None \<Rightarrow> fresh w
                | Some prev_text \<Rightarrow>
                    (case float_of_str (strip prev_text) of
                       None \<Rightarrow> (Inl ValueError, w)
                     | Some prev_budget_value \<Rightarrow>
                         (case input (Ask_same_budget today prev_budget_value) w of
                            (Inl e, w1) \<Rightarrow> (Inl e, w1)
                          | (Inr ans, w1) \<Rightarrow>
                              if lower (strip ans) = ''y''
                              then (Inr prev_budget_value,
                                    write_text this_month_budget
                                      (float_str prev_budget_value) w1)
                              else fresh w1)))))"

subsection \<open>Expense entry\<close>

function amount_loop :: "world \<Rightarrow> (exn + pyfloat) \<times> world" where
  "amount_loop w =
     (case input Ask_amount w of
        (Inl e, w1) \<Rightarrow> (Inl e, w1)
      | (Inr s, w1) \<Rightarrow>
          (case float_of_str s of
             None \<Rightarrow> amount_loop (print Invalid_number w1)
           | Some amt \<Rightarrow>
               if float_lt amt (Fin 0)
               then amount_loop (print Amount_must_be_positive w1)
               else (Inr amt, w1)))"
  by pat_completeness auto
termination
  by (relation "measure (\<lambda>w. length (stdin w))")
     (auto simp: input_def print_def split: list.splits)

declare amount_loop.simps [simp del]

definition print_menu :: "world \<Rightarrow> world" where
  \<comment> \<open>the heading and one numbered line for each category, numbered from 1\<close>
  "print_menu w =
     w\<lparr>stdout := stdout w @ Select_category
              # map (\<lambda>(i, (cat, emj)). Menu_line i emj cat)
                  (List.enumerate 1 EXPENSE_CATEGORIES)\<rparr>"

function category_loop :: "string \<Rightarrow> pyfloat \<Rightarrow> world \<Rightarrow> (exn + Expense) \<times> world" where
  "category_loop nm amt w =
     (case input (Ask_choice (length EXPENSE_CATEGORIES)) (print_menu w) of
        (Inl e, w1) \<Rightarrow> (Inl e, w1)
      | (Inr s, w1) \<Rightarrow>
          (case int_of_str s of
             None \<Rightarrow> category_loop nm amt (print Please_enter_number w1)
           | Some n \<Rightarrow>
               (let idx = n - 1 in
                if 0 \<le> idx \<and> idx < int (length EXPENSE_CATEGORIES)
                then (Inr \<lparr>name = nm, category = fst (EXPENSE_CATEGORIES ! nat idx),
                           amount = amt\<rparr>, w1)
                else category_loop nm amt (print Invalid_selection w1))))"
  by pat_completeness auto
termination
  by (relation "measure (\<lambda>(nm, amt, w). length (stdin w))")
     (auto simp: input_def print_def print_menu_def split: list.splits)

declare category_loop.simps [simp del]

definition get_user_expense :: "world \<Rightarrow> (exn + Expense) \<times> world" where
  "get_user_expense w =
     (case input Ask_name (print Enter_new_expense w) of
        (Inl e, w1) \<Rightarrow> (Inl e, w1)
      | (Inr s, w1) \<Rightarrow>
          (let nm = strip s in
           case amount_loop w1 of
             (Inl e, w2) \<Rightarrow> (Inl e, w2)
           | (Inr amt, w2) \<Rightarrow> category_loop nm amt w2))"

definition save_expense :: "Expense \<Rightarrow> string \<Rightarrow> date \<Rightarrow> world \<Rightarrow> world" where
  \<comment> \<open>\<open>today\<close> is what \<open>datetime.date.today()\<close> returns inside the call; the parent of a
      month store is the working directory, which exists, so \<open>mkdir\<close> changes nothing\<close>
  "save_expense expense file_path today w =
     print Expense_saved
       (append_text file_path
          (date_str today @ '','' @ name expense @ '','' @ float_str (amount expense)
             @ '','' @ category expense @ [CHR 0x0A]) w)"

subsection \<open>Reporting and visual summary\<close>

definition percent_of :: "pyfloat \<Rightarrow> pyfloat \<Rightarrow> exn + pyfloat" where
  \<comment> \<open>the expression \<open>(a / b) * 100\<close>\<close>
  "percent_of a b =
     (case float_div a b of
        Inl e \<Rightarrow> Inl e
      | Inr q \<Rightarrow> Inr (float_mul q (Fin 100)))"

fun pie_slices ::
  "(string \<times> pyfloat) list \<Rightarrow> pyfloat \<Rightarrow> string list \<times> pyfloat list \<times> pyfloat list \<Rightarrow>
   exn + string list \<times> pyfloat list \<times> pyfloat list" where
  \<comment> \<open>the \<open>for\<close> loop of \<open>visual_summary\<close> over the items of the dictionary\<close>
  "pie_slices [] budget acc = Inr acc"
| "pie_slices ((cat, amt) # rest) budget (labels, sizes, explode) =
     (case (if truthy budget then percent_of amt budget else Inr (Fin 0)) of
        Inl e \<Rightarrow> Inl e
      | Inr percent \<Rightarrow>
          pie_slices rest budget (labels @ [cat], sizes @ [percent], explode @ [Fin 0]))"

definition single_overflow :: rat where
  \<comment> \<open>\<open>2 ^ 128 - 2 ^ 103\<close>, the least magnitude that rounds to an infinity in single
      precision\<close>
  "single_overflow = 340282356779733661637539395458142568448"

definition single_underflow :: rat where
  \<comment> \<open>\<open>1 / 2 ^ 150\<close>, the greatest magnitude that rounds to a zero in single precision\<close>
  "single_underflow = 1 / 1427247692705959881058285969449495136382746624"

definition to_single :: "pyfloat \<Rightarrow> pyfloat" where
  \<comment> \<open>the conversion to single precision that \<open>pyplot.pie\<close> applies to the sizes: a
      magnitude beyond the range becomes an infinity or a zero\<close>
  "to_single v =
     (case v of
        Fin r \<Rightarrow>
          if single_overflow \<le> \<bar>r\<bar> then signed_inf (r < 0)
          else if \<bar>r\<bar> \<le> single_underflow then signed_zero (r < 0)
          else Fin r
      | _ \<Rightarrow> v)"

definition pyplot_pie :: "pyfloat list \<Rightarrow> exn + unit" where
  \<comment> \<open>\<open>pyplot.pie(sizes, ...)\<close>: a negative size is refused, and so are sizes whose
      fractions of their sum are not numbers (all of them zero, or one of them infinite
      or NaN), for which no wedge can be drawn\<close>
  "pyplot_pie sizes =
     (let x = map to_single sizes;
          sx = foldl float_add (Fin 0) x
      in if list_ex (\<lambda>v. float_lt v (Fin 0)) x then Inl ValueError
         else if list_ex (\<lambda>v. float_quot v sx = NaN) x then Inl ValueError
         else Inr ())"

definition visual_summary ::
  "(string \<times> pyfloat) list \<Rightarrow> pyfloat \<Rightarrow> pyfloat \<Rightarrow> pyfloat \<Rightarrow> world \<Rightarrow> (exn + unit) \<times> world"
where
  "visual_summary amount_by_cat total_spent remaining_percent budget w =
     (case pie_slices amount_by_cat budget
             ([''Remaining''], [remaining_percent], [Fin (6 / 100)]) of
        Inl e \<Rightarrow> (Inl e, w)
      | Inr (labels, sizes, explode) \<Rightarrow>
          (case pyplot_pie sizes of
             Inl e \<Rightarrow> (Inl e, w)
           | Inr _ \<Rightarrow> (Inr (), print (Pie_chart labels sizes explode) w)))"

definition parse_line :: "string \<Rightarrow> Expense option" where
  \<comment> \<open>the body of the \<open>try\<close>: \<open>None\<close> stands for the \<open>ValueError\<close> of the unpacking or of
      \<open>float\<close>\<close>
  "parse_line line =
     (case split_on CHR '','' (strip line) of
        [_, nm, amt, cat] \<Rightarrow>
          (case float_of_str amt of
             None \<Rightarrow> None
           | Some a \<Rightarrow> Some \<lparr>name = nm, category = cat, amount = a\<rparr>)
      | _ \<Rightarrow> None)"

fun read_expenses :: "string list \<Rightarrow> Expense list \<Rightarrow> world \<Rightarrow> Expense list \<times> world" where
  \<comment> \<open>the \<open>for line in f\<close> loop\<close>
  "read_expenses [] expenses w = (expenses, w)"
| "read_expenses (line # rest) expenses w =
     (case parse_line line of
        Some e \<Rightarrow> read_expenses rest (expenses @ [e]) w
      | None \<Rightarrow> read_expenses rest expenses (print (Skipping_malformed_line (strip line)) w))"

definition dict_get :: "(string \<times> pyfloat) list \<Rightarrow> string \<Rightarrow> pyfloat \<Rightarrow> pyfloat" where
  \<comment> \<open>\<open>d.get(key, default)\<close>\<close>
  "dict_get d k dflt = (case map_of d k of None \<Rightarrow> dflt | Some v \<Rightarrow> v)"

definition tally :: "(string \<times> pyfloat) list \<Rightarrow> Expense \<Rightarrow> (string \<times> pyfloat) list" where
  \<comment> \<open>one step of the aggregation loop; a dictionary keeps its keys in insertion order\<close>
  "tally amount_by_cat e =
     AList.update (category e)
       (float_add (dict_get amount_by_cat (category e) (Fin 0)) (amount e)) amount_by_cat"

definition sum_amounts :: "Expense list \<Rightarrow> pyfloat" where
  \<comment> \<open>\<open>sum(exp.amount for exp in expenses)\<close>: from 0, left to right\<close>
  "sum_amounts expenses = foldl float_add (Fin 0) (map amount expenses)"

definition emoji_of :: "string \<Rightarrow> symbol" where
  \<comment> \<open>\<open>next((e for c, e in EXPENSE_CATEGORIES if c == cat), "")\<close>\<close>
  "emoji_of cat = (case map_of EXPENSE_CATEGORIES cat of None \<Rightarrow> [] | Some e \<Rightarrow> e)"

fun category_lines ::
  "(string \<times> pyfloat) list \<Rightarrow> pyfloat \<Rightarrow> pyfloat \<Rightarrow> world \<Rightarrow> (exn + unit) \<times> world" where
  \<comment> \<open>the \<open>for\<close> loop that prints one line per category; \<open>pct\<close> is assigned twice\<close>
  "category_lines [] budget total_spent w = (Inr (), w)"
| "category_lines ((cat, amt) # rest) budget total_spent w =
     (case (if truthy total_spent then percent_of amt budget else Inr (Fin 0)) of
        Inl e \<Rightarrow> (Inl e, w)
      | Inr _ \<Rightarrow>
          (case (if truthy total_spent then percent_of amt total_spent else Inr (Fin 0)) of
             Inl e \<Rightarrow> (Inl e, w)
           | Inr pct \<Rightarrow>
               category_lines rest budget total_spent
                 (print (Category_line (emoji_of cat) cat amt pct) w)))"

definition days_left_of :: "date \<Rightarrow> int" where
  \<comment> \<open>\<open>calendar.monthrange(today.year, today.month)[1] - today.day\<close>\<close>
  "days_left_of today = int (monthrange_days (year today) (month today)) - int (day today)"

definition summarize :: "string \<Rightarrow> pyfloat \<Rightarrow> date \<Rightarrow> world \<Rightarrow> (exn + unit) \<times> world" where
  \<comment> \<open>\<open>today\<close> is what \<open>datetime.date.today()\<close> returns inside the call\<close>
  "summarize expense_path budget today w =
     (case store_text w expense_path of
        [] \<Rightarrow> (Inr (), print No_expenses w)
      | c # cs \<Rightarrow>
        (let (expenses, w1) = read_expenses (lines_of (universal_newlines (c # cs))) [] w;
             amount_by_cat = foldl tally [] expenses;
             total_spent = sum_amounts expenses;
             remaining = float_sub budget total_spent
         in
         case (if truthy budget then percent_of remaining budget else Inr (Fin 0)) of
           Inl e \<Rightarrow> (Inl e, w1)
         | Inr remaining_pct \<Rightarrow>
             (case category_lines amount_by_cat budget total_spent (print Summary_header w1) of
                (Inl e, w2) \<Rightarrow> (Inl e, w2)
              | (Inr _, w2) \<Rightarrow>
                  (let w3 = print (Budget_remaining remaining)
                              (print (Total_spent total_spent) w2);
                       days_left = days_left_of today
                   in
                   case (if days_left \<noteq> 0 then float_div remaining (Fin (of_int days_left))
                         else Inr (Fin 0)) of
                     Inl e \<Rightarrow> (Inl e, w3)
                   | Inr daily \<Rightarrow>
                       (case input Ask_pie_chart (print (Daily_budget_left daily) w3) of
                          (Inl e, w4) \<Rightarrow> (Inl e, w4)
                        | (Inr ans, w4) \<Rightarrow>
                            if lower (strip ans) = ''y''
                            then visual_summary amount_by_cat total_spent remaining_pct
                                   budget w4
                            else (Inr (), w4))))))"

subsection \<open>Vocabulary of the statements\<close>

definition parsed_expenses :: "string \<Rightarrow> Expense list" where
  \<comment> \<open>the records of the well-formed lines of a store, in order\<close>
  "parsed_expenses text = List.map_filter parse_line (lines_of (universal_newlines text))"

definition skipped_lines :: "string \<Rightarrow> string list" where
  \<comment> \<open>the lines of a store that raise inside the \<open>try\<close>\<close>
  "skipped_lines text =
     filter (\<lambda>line. parse_line line = None) (lines_of (universal_newlines text))"

definition printed :: "world \<Rightarrow> world \<Rightarrow> event list" where
  \<comment> \<open>what has been printed between an earlier world and a later one\<close>
  "printed w w' = drop (length (stdout w)) (stdout w')"

definition digit_set :: "char set" where
  \<comment> \<open>the ten decimal digits\<close>
  "digit_set = set ''0123456789''"

definition digit_value :: "char \<Rightarrow> nat" where
  \<comment> \<open>the value of a digit character\<close>
  "digit_value c = (case digit_of c of None \<Rightarrow> 0 | Some d \<Rightarrow> d)"

definition str_value :: "string \<Rightarrow> nat" where
  \<comment> \<open>the number written by a string of digits\<close>
  "str_value s = digits_value (map digit_value s)"

definition float_value :: "pyfloat \<Rightarrow> bool" where
  \<comment> \<open>the values of floats, as far as the model tells them from other values: a zero,
      a decimal number within the range of doubles (every double is one), an infinity
      or NaN; an exact quotient such as 1/3 is the value of no float\<close>
  "float_value v =
     (case v of
        Fin r \<Rightarrow>
          (if r = 0 then True
           else (case dec_places (nat (snd (quotient_of \<bar>r\<bar>))) of
                   None \<Rightarrow> False
                 | Some _ \<Rightarrow> float_underflow < \<bar>r\<bar> \<and> \<bar>r\<bar> < float_overflow))
      | _ \<Rightarrow> True)"

section \<open>Properties\<close>

subsection \<open>The bounds of the float formats\<close>

lemma float_overflow_eq: "float_overflow = 2 ^ 1024 - 2 ^ 970"
  by (simp add: float_overflow_def)

lemma float_underflow_eq: "float_underflow = 1 / 2 ^ 1075"
  by (simp add: float_underflow_def)

lemma single_overflow_eq: "single_overflow = 2 ^ 128 - 2 ^ 103"
  by (simp add: single_overflow_def)

lemma single_underflow_eq: "single_underflow = 1 / 2 ^ 150"
  by (simp add: single_underflow_def)

lemma float_of_str_range_examples:
  "float_of_str ''1e309'' = Some PInf \<and> float_of_str ''1e-324'' = Some (Fin 0)"
  by code_simp

subsection \<open>What each step leaves alone\<close>

lemma files_print [simp]: "files (print e w) = files w"
  by (simp add: print_def)

lemma files_input [simp]: "files (snd (input p w)) = files w"
  by (simp add: input_def split: list.splits)

lemma files_read_expenses [simp]: "files (snd (read_expenses ls acc w)) = files w"
  by (induction ls arbitrary: acc w) (auto split: option.splits)

lemma files_category_lines [simp]:
  "files (snd (category_lines abc budget tot w)) = files w"
  by (induction abc budget tot w rule: category_lines.induct) (auto split: sum.splits)

lemma files_visual_summary [simp]:
  "files (snd (visual_summary abc tot rp budget w)) = files w"
  by (auto simp: visual_summary_def split: sum.splits prod.splits)

text \<open>
  C10.  \<open>summarize\<close> is read-only on persistent state: whatever the store, the budget,
  the date and the console input, every file (so the expense store and the budget
  store) has the same content after the call as before it, also when the call raises.
\<close>

theorem summarize_read_only:
  "files (snd (summarize expense_path budget today w)) = files w"
proof -
  have inp: "files w4 = files w3" if "input p w3 = (r, w4)" for p w3 r w4
    using files_input [of p w3] that by simp
  have rd: "files w1 = files w" if "read_expenses ls [] w = (ex, w1)" for ls ex w1
    using files_read_expenses [of ls "[]" w] that by simp
  have cl: "files w2 = files w1"
    if "category_lines abc budget tot w1 = (r, w2)" for abc tot w1 r w2
    using files_category_lines [of abc budget tot w1] that by simp
  show ?thesis
    unfolding summarize_def
    by (auto simp: Let_def split: list.splits prod.splits sum.splits dest!: inp rd cl)
qed

subsection \<open>What \<open>summarize\<close> prints\<close>

lemma read_expenses_eq:
  "read_expenses ls acc w =
     (acc @ List.map_filter parse_line ls,
      w\<lparr>stdout := stdout w
           @ map (\<lambda>l. Skipping_malformed_line (strip l)) (filter (\<lambda>l. parse_line l = None) ls)\<rparr>)"
  by (induction ls arbitrary: acc w) (auto simp: List.map_filter_simps print_def split: option.splits)

lemma float_div_truthy: "truthy y \<Longrightarrow> float_div x y = Inr (float_quot x y)"
  by (simp add: float_div_def)

lemma truthy_of_int: "d \<noteq> 0 \<Longrightarrow> truthy (Fin (of_int d))"
  by (simp add: truthy_def)

lemma percent_of_truthy:
  "truthy y \<Longrightarrow> percent_of x y = Inr (float_mul (float_quot x y) (Fin 100))"
  by (simp add: percent_of_def float_div_truthy)

lemma percent_of_zero: "\<not> truthy y \<Longrightarrow> percent_of x y = Inl ZeroDivisionError"
  by (simp add: percent_of_def float_div_def)

lemma category_lines_ok:
  "(truthy tot \<longrightarrow> truthy budget) \<Longrightarrow>
   category_lines abc budget tot w =
     (Inr (), w\<lparr>stdout := stdout w
        @ map (\<lambda>(cat, amt). Category_line (emoji_of cat) cat amt
                 (if truthy tot then float_mul (float_quot amt tot) (Fin 100) else Fin 0)) abc\<rparr>)"
  by (induction abc budget tot w rule: category_lines.induct)
     (auto simp: percent_of_truthy print_def)

lemma category_lines_raises:
  "truthy tot \<Longrightarrow> \<not> truthy budget \<Longrightarrow> abc \<noteq> [] \<Longrightarrow>
   category_lines abc budget tot w = (Inl ZeroDivisionError, w)"
  by (cases abc) (auto simp: percent_of_zero)

lemma pie_slices_eq:
  "pie_slices abc budget (ls, ss, xs) =
     Inr (ls @ map fst abc,
          ss @ map (\<lambda>(cat, amt). if truthy budget
                                   then float_mul (float_quot amt budget) (Fin 100) else Fin 0) abc,
          xs @ map (\<lambda>_. Fin 0) abc)"
  by (induction abc budget "(ls, ss, xs)" arbitrary: ls ss xs rule: pie_slices.induct)
     (auto simp: percent_of_truthy)

lemma pyplot_pie_cases: "pyplot_pie sizes = Inr () \<or> pyplot_pie sizes = Inl ValueError"
  by (simp add: pyplot_pie_def Let_def)

lemma visual_summary_eq:
  "visual_summary abc tot rp budget w =
     (let sizes = rp # map (\<lambda>(cat, amt). if truthy budget
                              then float_mul (float_quot amt budget) (Fin 100) else Fin 0) abc
      in if pyplot_pie sizes = Inr ()
         then (Inr (), print (Pie_chart (''Remaining'' # map fst abc) sizes
                                (Fin (6 / 100) # map (\<lambda>_. Fin 0) abc)) w)
         else (Inl ValueError, w))"
  using pyplot_pie_cases
    [of "rp # map (\<lambda>(cat, amt). if truthy budget
                     then float_mul (float_quot amt budget) (Fin 100) else Fin 0) abc"]
  by (auto simp: visual_summary_def pie_slices_eq Let_def)

lemma tally_not_empty: "tally d e \<noteq> []"
  by (cases d) (auto simp: tally_def)

lemma foldl_tally_not_empty: "d \<noteq> [] \<or> ex \<noteq> [] \<Longrightarrow> foldl tally d ex \<noteq> []"
  by (induction ex arbitrary: d) (auto simp: tally_not_empty)

lemma sum_amounts_Nil [simp]: "sum_amounts [] = Fin 0"
  by (simp add: sum_amounts_def)

lemma summarize_eq:
  assumes ne: "store_text w path \<noteq> []"
    and ok: "truthy (sum_amounts (parsed_expenses (store_text w path))) \<longrightarrow> truthy budget"
  shows "summarize path budget today w =
    (let text = store_text w path;
         ex = parsed_expenses text;
         abc = foldl tally [] ex;
         tot = sum_amounts ex;
         rem = float_sub budget tot;
         rp = (if truthy budget then float_mul (float_quot rem budget) (Fin 100) else Fin 0);
         dl = days_left_of today;
         daily = (if dl \<noteq> 0 then float_quot rem (Fin (of_int dl)) else Fin 0);
         w3 = w\<lparr>stdout := stdout w
                @ map (\<lambda>l. Skipping_malformed_line (strip l)) (skipped_lines text)
                @ Summary_header
                # map (\<lambda>(cat, amt). Category_line (emoji_of cat) cat amt
                         (if truthy tot then float_mul (float_quot amt tot) (Fin 100) else Fin 0)) abc
                @ [Total_spent tot, Budget_remaining rem, Daily_budget_left daily]\<rparr>
     in case input Ask_pie_chart w3 of
          (Inl e, w4) \<Rightarrow> (Inl e, w4)
        | (Inr ans, w4) \<Rightarrow>
            if lower (strip ans) = ''y'' then visual_summary abc tot rp budget w4
            else (Inr (), w4))"
proof -
  obtain c cs where tx: "store_text w path = c # cs"
    using ne by (cases "store_text w path") auto
  have dv: "float_div x (Fin (of_int d)) = Inr (float_quot x (Fin (of_int d)))" if "d \<noteq> 0" for x d
    using that by (simp add: float_div_truthy truthy_of_int)
  note cl = category_lines_ok [OF ok]
  show ?thesis
  proof (cases "truthy budget")
    case True
    then show ?thesis
      using cl unfolding summarize_def tx parsed_expenses_def skipped_lines_def
      by (simp add: read_expenses_eq percent_of_truthy dv Let_def print_def
          del: of_int_eq_0_iff)
  next
    case False
    then show ?thesis
      using cl unfolding summarize_def tx parsed_expenses_def skipped_lines_def
      by (simp add: read_expenses_eq dv Let_def print_def del: of_int_eq_0_iff)
  qed
qed

lemma summarize_raises:
  assumes ne: "store_text w path \<noteq> []"
    and tot: "truthy (sum_amounts (parsed_expenses (store_text w path)))"
    and bud: "\<not> truthy budget"
  shows "summarize path budget today w =
    (Inl ZeroDivisionError,
     w\<lparr>stdout := stdout w
          @ map (\<lambda>l. Skipping_malformed_line (strip l)) (skipped_lines (store_text w path))
          @ [Summary_header]\<rparr>)"
proof -
  obtain c cs where tx: "store_text w path = c # cs"
    using ne by (cases "store_text w path") auto
  have "parsed_expenses (store_text w path) \<noteq> []"
    using tot by (auto simp: truthy_def)
  then have abc: "foldl tally [] (parsed_expenses (store_text w path)) \<noteq> []"
    by (simp add: foldl_tally_not_empty)
  show ?thesis
    using tot bud abc unfolding summarize_def tx
    by (simp add: read_expenses_eq category_lines_raises Let_def print_def
        parsed_expenses_def skipped_lines_def)
qed

lemma summarize_empty:
  "store_text w path = [] \<Longrightarrow> summarize path budget today w = (Inr (), print No_expenses w)"
  by (simp add: summarize_def)

lemma printed_append [simp]: "printed w (w'\<lparr>stdout := stdout w @ evs\<rparr>) = evs"
  by (simp add: printed_def)

lemma summarize_stdout:
  assumes ne: "store_text w path \<noteq> []"
    and ok: "truthy (sum_amounts (parsed_expenses (store_text w path))) \<longrightarrow> truthy budget"
  shows "printed w (snd (summarize path budget today w)) =
    (let tx = store_text w path;
         ex = parsed_expenses tx;
         abc = foldl tally [] ex;
         tot = sum_amounts ex;
         rem = float_sub budget tot;
         rp = (if truthy budget then float_mul (float_quot rem budget) (Fin 100) else Fin 0);
         sizes = rp # map (\<lambda>(cat, amt). if truthy budget
                             then float_mul (float_quot amt budget) (Fin 100) else Fin 0) abc;
         dl = days_left_of today;
         daily = (if dl \<noteq> 0 then float_quot rem (Fin (of_int dl)) else Fin 0)
     in map (\<lambda>l. Skipping_malformed_line (strip l)) (skipped_lines tx)
        @ Summary_header
        # map (\<lambda>(cat, amt). Category_line (emoji_of cat) cat amt
                 (if truthy tot then float_mul (float_quot amt tot) (Fin 100) else Fin 0)) abc
        @ [Total_spent tot, Budget_remaining rem, Daily_budget_left daily, Ask_pie_chart]
        @ (case stdin w of
             [] \<Rightarrow> []
           | ans # _ \<Rightarrow>
               if lower (strip ans) = ''y'' \<and> pyplot_pie sizes = Inr ()
               then [Pie_chart (''Remaining'' # map fst abc) sizes
                       (Fin (6 / 100) # map (\<lambda>_. Fin 0) abc)]
               else []))"
    and "fst (summarize path budget today w) =
      (let ex = parsed_expenses (store_text w path);
           rem = float_sub budget (sum_amounts ex);
           rp = (if truthy budget then float_mul (float_quot rem budget) (Fin 100) else Fin 0);
           sizes = rp # map (\<lambda>(cat, amt). if truthy budget
                               then float_mul (float_quot amt budget) (Fin 100) else Fin 0)
                          (foldl tally [] ex)
       in case stdin w of
            [] \<Rightarrow> Inl EOFError
          | ans # _ \<Rightarrow> if lower (strip ans) = ''y'' then pyplot_pie sizes else Inr ())"
proof -
  let ?ex = "parsed_expenses (store_text w path)"
  let ?rem = "float_sub budget (sum_amounts ?ex)"
  let ?rp = "if truthy budget then float_mul (float_quot ?rem budget) (Fin 100) else Fin 0"
  let ?sizes = "?rp # map (\<lambda>(cat, amt). if truthy budget
                             then float_mul (float_quot amt budget) (Fin 100) else Fin 0)
                        (foldl tally [] ?ex)"
  note pc = pyplot_pie_cases [of ?sizes]
  show "printed w (snd (summarize path budget today w)) =
    (let tx = store_text w path;
         ex = parsed_expenses tx;
         abc = foldl tally [] ex;
         tot = sum_amounts ex;
         rem = float_sub budget tot;
         rp = (if truthy budget then float_mul (float_quot rem budget) (Fin 100) else Fin 0);
         sizes = rp # map (\<lambda>(cat, amt). if truthy budget
                             then float_mul (float_quot amt budget) (Fin 100) else Fin 0) abc;
         dl = days_left_of today;
         daily = (if dl \<noteq> 0 then float_quot rem (Fin (of_int dl)) else Fin 0)
     in map (\<lambda>l. Skipping_malformed_line (strip l)) (skipped_lines tx)
        @ Summary_header
        # map (\<lambda>(cat, amt). Category_line (emoji_of cat) cat amt
                 (if truthy tot then float_mul (float_quot amt tot) (Fin 100) else Fin 0)) abc
        @ [Total_spent tot, Budget_remaining rem, Daily_budget_left daily, Ask_pie_chart]
        @ (case stdin w of
             [] \<Rightarrow> []
           | ans # _ \<Rightarrow>
               if lower (strip ans) = ''y'' \<and> pyplot_pie sizes = Inr ()
               then [Pie_chart (''Remaining'' # map fst abc) sizes
                       (Fin (6 / 100) # map (\<lambda>_. Fin 0) abc)]
               else []))"
    unfolding summarize_eq [OF ne ok]
    by (simp add: Let_def input_def visual_summary_eq print_def printed_def split: list.splits)
  show "fst (summarize path budget today w) =
      (let ex = parsed_expenses (store_text w path);
           rem = float_sub budget (sum_amounts ex);
           rp = (if truthy budget then float_mul (float_quot rem budget) (Fin 100) else Fin 0);
           sizes = rp # map (\<lambda>(cat, amt). if truthy budget
                               then float_mul (float_quot amt budget) (Fin 100) else Fin 0)
                          (foldl tally [] ex)
       in case stdin w of
            [] \<Rightarrow> Inl EOFError
          | ans # _ \<Rightarrow> if lower (strip ans) = ''y'' then pyplot_pie sizes else Inr ())"
    unfolding summarize_eq [OF ne ok] using pc
    by (auto simp: Let_def input_def visual_summary_eq print_def split: list.splits)
qed

lemma summarize_no_division_error:
  assumes ne: "store_text w path \<noteq> []"
    and ok: "truthy (sum_amounts (parsed_expenses (store_text w path))) \<longrightarrow> truthy budget"
  shows "fst (summarize path budget today w) \<noteq> Inl ZeroDivisionError"
proof -
  have "pyplot_pie s \<noteq> Inl ZeroDivisionError" for s
    using pyplot_pie_cases [of s] by auto
  then show ?thesis
    unfolding summarize_stdout(2) [OF ne ok] by (simp add: Let_def split: list.splits)
qed


subsection \<open>Budget zero\<close>

text \<open>
  C1 does not hold of the code.  A budget of 0 is accepted by the budget loop, and with
  budget 0 and a store holding one expense of 50 \<open>summarize\<close> raises
  \<open>ZeroDivisionError\<close>: the first assignment to \<open>pct\<close> in the category loop divides by
  the budget under the guard \<open>if total_spent\<close>, where the two other expressions that
  divide by the budget (the remaining percentage, and the slice sizes of
  \<open>visual_summary\<close>) are guarded by the budget.
\<close>

theorem summarize_zero_budget_raises:
  "fst (load_or_create_budget \<lparr>year = 2025, month = 6, day = 15\<rparr>
          \<lparr>files = Map.empty, stdin = [''0''], stdout = []\<rparr>) = Inr (Fin 0)
   \<and> fst (summarize ''expenses_2025-06.csv'' (Fin 0) \<lparr>year = 2025, month = 6, day = 15\<rparr>
          \<lparr>files = [''expenses_2025-06.csv'' \<mapsto> ''2025-06-01,Coffee,50,Food'' @ [CHR 0x0A]],
           stdin = [''n''], stdout = []\<rparr>)
     = Inl ZeroDivisionError
   \<and> stdout (snd (summarize ''expenses_2025-06.csv'' (Fin 0) \<lparr>year = 2025, month = 6, day = 15\<rparr>
          \<lparr>files = [''expenses_2025-06.csv'' \<mapsto> ''2025-06-01,Coffee,50,Food'' @ [CHR 0x0A]],
           stdin = [''n''], stdout = []\<rparr>))
     = [Summary_header]
   \<and> percent_of (Fin 50) (Fin 0) = Inl ZeroDivisionError"
  by code_simp

subsection \<open>The pie chart\<close>





subsection \<open>Days left and daily allowance\<close>

text \<open>
  C8.  For every run date, \<open>summarize\<close> computes the days left as the number of days of
  the current month minus today's day of the month, and prints exactly one daily
  allowance: remaining budget divided by days left, or 0 when no days are left.  On the
  last day of the month the days left are 0, the allowance printed is 0, and no
  division error is raised.  (The computation is reached when the store is not empty
  and the category loop before it has not raised.)
\<close>

theorem summarize_daily_allowance:
  assumes ne: "store_text w path \<noteq> []"
    and ok: "truthy (sum_amounts (parsed_expenses (store_text w path))) \<longrightarrow> truthy budget"
  shows "days_left_of today = int (monthrange_days (year today) (month today)) - int (day today)
    \<and> (\<exists>pre post daily.
          printed w (snd (summarize path budget today w)) = pre @ Daily_budget_left daily # post
          \<and> (\<forall>d. Daily_budget_left d \<notin> set pre \<and> Daily_budget_left d \<notin> set post)
          \<and> (if days_left_of today \<noteq> 0
              then float_div (float_sub budget (sum_amounts (parsed_expenses (store_text w path))))
                     (Fin (of_int (days_left_of today))) = Inr daily
              else daily = Fin 0))
    \<and> (day today = monthrange_days (year today) (month today) \<longrightarrow>
          days_left_of today = 0
          \<and> fst (summarize path budget today w) \<noteq> Inl ZeroDivisionError
          \<and> Daily_budget_left (Fin 0) \<in> set (printed w (snd (summarize path budget today w))))"
proof -
  let ?tx = "store_text w path"
  let ?tot = "sum_amounts (parsed_expenses ?tx)"
  let ?rem = "float_sub budget ?tot"
  let ?dl = "days_left_of today"
  let ?daily = "if ?dl \<noteq> 0 then float_quot ?rem (Fin (of_int ?dl)) else Fin 0"
  let ?pre = "map (\<lambda>l. Skipping_malformed_line (strip l)) (skipped_lines ?tx)
        @ Summary_header
        # map (\<lambda>(cat, amt). Category_line (emoji_of cat) cat amt
                 (if truthy ?tot then float_mul (float_quot amt ?tot) (Fin 100) else Fin 0))
            (foldl tally [] (parsed_expenses ?tx))
        @ [Total_spent ?tot, Budget_remaining ?rem]"
  note out = summarize_stdout [OF ne ok, of today]
  obtain post where pr: "printed w (snd (summarize path budget today w)) =
      ?pre @ Daily_budget_left ?daily # post"
    and post: "\<forall>d. Daily_budget_left d \<notin> set post"
    unfolding out(1) by (auto simp: Let_def split: list.splits)
  have pre: "\<forall>d. Daily_budget_left d \<notin> set ?pre"
    by auto
  have dv: "if ?dl \<noteq> 0 then float_div ?rem (Fin (of_int ?dl)) = Inr ?daily else ?daily = Fin 0"
    by (simp add: float_div_truthy truthy_of_int)
  have 1: "\<exists>pre post daily.
          printed w (snd (summarize path budget today w)) = pre @ Daily_budget_left daily # post
          \<and> (\<forall>d. Daily_budget_left d \<notin> set pre \<and> Daily_budget_left d \<notin> set post)
          \<and> (if ?dl \<noteq> 0 then float_div ?rem (Fin (of_int ?dl)) = Inr daily else daily = Fin 0)"
    using pr pre post dv by blast
  have 2: "?dl = 0 \<and> fst (summarize path budget today w) \<noteq> Inl ZeroDivisionError
          \<and> Daily_budget_left (Fin 0) \<in> set (printed w (snd (summarize path budget today w)))"
    if "day today = monthrange_days (year today) (month today)"
  proof -
    have z: "?dl = 0" using that by (simp add: days_left_of_def)
    have "fst (summarize path budget today w) \<noteq> Inl ZeroDivisionError"
      using ne ok by (rule summarize_no_division_error)
    moreover have "Daily_budget_left (Fin 0) \<in> set (printed w (snd (summarize path budget today w)))"
      unfolding pr using z by simp
    ultimately show ?thesis using z by blast
  qed
  show ?thesis using 1 2 by (simp add: days_left_of_def)
qed

theorem summarize_daily_allowance_witness:
  "store_text \<lparr>files = [''expenses_2025-06.csv'' \<mapsto>
                ''2025-06-01,Coffee,50,Food'' @ [CHR 0x0A] @ ''garbage'' @ [CHR 0x0A]],
       stdin = [''n''], stdout = []\<rparr> ''expenses_2025-06.csv'' \<noteq> []
   \<and> truthy (Fin 200)
   \<and> day \<lparr>year = 2025, month = 6, day = 30\<rparr> = monthrange_days (year \<lparr>year = 2025, month = 6, day = 30\<rparr>) (month \<lparr>year = 2025, month = 6, day = 30\<rparr>)
   \<and> days_left_of \<lparr>year = 2025, month = 6, day = 30\<rparr> = 0
   \<and> fst (summarize ''expenses_2025-06.csv'' (Fin 200) \<lparr>year = 2025, month = 6, day = 30\<rparr>
        \<lparr>files = [''expenses_2025-06.csv'' \<mapsto>
                ''2025-06-01,Coffee,50,Food'' @ [CHR 0x0A] @ ''garbage'' @ [CHR 0x0A]],
       stdin = [''n''], stdout = []\<rparr>) \<noteq> Inl ZeroDivisionError
   \<and> Daily_budget_left (Fin 0) \<in> set (printed \<lparr>files = [''expenses_2025-06.csv'' \<mapsto>
                ''2025-06-01,Coffee,50,Food'' @ [CHR 0x0A] @ ''garbage'' @ [CHR 0x0A]],
       stdin = [''n''], stdout = []\<rparr>
        (snd (summarize ''expenses_2025-06.csv'' (Fin 200) \<lparr>year = 2025, month = 6, day = 30\<rparr>
        \<lparr>files = [''expenses_2025-06.csv'' \<mapsto>
                ''2025-06-01,Coffee,50,Food'' @ [CHR 0x0A] @ ''garbage'' @ [CHR 0x0A]],
       stdin = [''n''], stdout = []\<rparr>)))"
proof -
  have h1: "store_text \<lparr>files = [''expenses_2025-06.csv'' \<mapsto>
                ''2025-06-01,Coffee,50,Food'' @ [CHR 0x0A] @ ''garbage'' @ [CHR 0x0A]],
       stdin = [''n''], stdout = []\<rparr> ''expenses_2025-06.csv'' \<noteq> []"
    by code_simp
  have h2: "truthy (Fin 200)"
    by code_simp
  have h3: "day \<lparr>year = 2025, month = 6, day = 30\<rparr> = monthrange_days (year \<lparr>year = 2025, month = 6, day = 30\<rparr>) (month \<lparr>year = 2025, month = 6, day = 30\<rparr>)"
    by code_simp
  have "days_left_of \<lparr>year = 2025, month = 6, day = 30\<rparr> = 0
   \<and> fst (summarize ''expenses_2025-06.csv'' (Fin 200) \<lparr>year = 2025, month = 6, day = 30\<rparr>
        \<lparr>files = [''expenses_2025-06.csv'' \<mapsto>
                ''2025-06-01,Coffee,50,Food'' @ [CHR 0x0A] @ ''garbage'' @ [CHR 0x0A]],
       stdin = [''n''], stdout = []\<rparr>) \<noteq> Inl ZeroDivisionError
   \<and> Daily_budget_left (Fin 0) \<in> set (printed \<lparr>files = [''expenses_2025-06.csv'' \<mapsto>
                ''2025-06-01,Coffee,50,Food'' @ [CHR 0x0A] @ ''garbage'' @ [CHR 0x0A]],
       stdin = [''n''], stdout = []\<rparr>
        (snd (summarize ''expenses_2025-06.csv'' (Fin 200) \<lparr>year = 2025, month = 6, day = 30\<rparr>
        \<lparr>files = [''expenses_2025-06.csv'' \<mapsto>
                ''2025-06-01,Coffee,50,Food'' @ [CHR 0x0A] @ ''garbage'' @ [CHR 0x0A]],
       stdin = [''n''], stdout = []\<rparr>)))"
    using summarize_daily_allowance [of "\<lparr>files = [''expenses_2025-06.csv'' \<mapsto>
                ''2025-06-01,Coffee,50,Food'' @ [CHR 0x0A] @ ''garbage'' @ [CHR 0x0A]],
       stdin = [''n''], stdout = []\<rparr>" "''expenses_2025-06.csv''" "Fin 200" "\<lparr>year = 2025, month = 6, day = 30\<rparr>"]
      h1 h2 h3 by blast
  with h1 h2 h3 show ?thesis by blast
qed

subsection \<open>Malformed lines\<close>

text \<open>
  \<open>float\<close> and \<open>int\<close> do not skip the separator characters that \<open>str.strip\<close> removes:
  a line whose amount field is wrapped in one is skipped.
\<close>

lemma number_blank_examples:
  "float_of_str ([CHR 0x1C] @ ''50'') = None
   \<and> float_of_str (''50'' @ [CHR 0x1F]) = None
   \<and> int_of_str ([CHR 0x1F] @ ''7'') = None
   \<and> strip ([CHR 0x1C] @ ''50'') = ''50''
   \<and> float_of_str ([CHR 0xA0] @ ''50'' @ [CHR 0x85]) = Some (Fin 50)
   \<and> float_of_str ([CHR 0x09] @ ''50'' @ [CHR 0x0A]) = Some (Fin 50)
   \<and> parse_line (''2025-06-01,Coffee,'' @ [CHR 0x1C] @ ''50,Food'') = None
   \<and> parse_line (''2025-06-01,Coffee, 50 ,Food'') =
         Some \<lparr>name = ''Coffee'', category = ''Food'', amount = Fin 50\<rparr>"
  by code_simp

lemma parse_line_None_iff:
  "parse_line line = None \<longleftrightarrow>
     length (split_on CHR '','' (strip line)) \<noteq> 4
     \<or> float_of_str (split_on CHR '','' (strip line) ! 2) = None"
proof (cases "split_on CHR '','' (strip line)")
  case Nil
  then show ?thesis by (simp add: parse_line_def)
next
  case (Cons a as)
  then show ?thesis
    by (cases as; cases "tl as"; cases "tl (tl as)"; cases "tl (tl (tl as))")
       (auto simp: parse_line_def split: option.splits)
qed




subsection \<open>Aggregation by category\<close>

lemma float_add_commute: "float_add x y = float_add y x"
  by (cases x; cases y) (simp_all add: add.commute)

lemma float_add_assoc: "float_add (float_add x y) z = float_add x (float_add y z)"
  by (cases x; cases y; cases z) (simp_all add: add.assoc)

lemma float_add_zero: "z \<noteq> NZero \<Longrightarrow> float_add z (Fin 0) = z"
  by (cases z) simp_all

lemma float_add_not_NZero: "x \<noteq> NZero \<Longrightarrow> float_add x y \<noteq> NZero"
  by (cases x; cases y) simp_all

lemma foldl_float_add_not_NZero: "z \<noteq> NZero \<Longrightarrow> foldl float_add z xs \<noteq> NZero"
  by (induction xs arbitrary: z) (simp_all add: float_add_not_NZero)

lemma foldl_float_add:
  "foldl float_add (float_add z a) xs = float_add (foldl float_add z xs) a"
proof (induction xs arbitrary: z)
  case Nil
  show ?case by simp
next
  case (Cons x xs)
  have "float_add (float_add z a) x = float_add (float_add z x) a"
    by (metis float_add_assoc float_add_commute)
  then show ?case using Cons.IH by simp
qed

lemma total_after_tally:
  "z \<noteq> NZero \<Longrightarrow>
   foldl float_add z (map snd (tally d e)) = float_add (foldl float_add z (map snd d)) (amount e)"
proof (induction d arbitrary: z)
  case Nil
  have "float_add z (float_add (Fin 0) (amount e)) = float_add (float_add z (Fin 0)) (amount e)"
    by (simp add: float_add_assoc)
  with Nil show ?case by (simp add: tally_def dict_get_def float_add_zero)
next
  case (Cons p ps)
  show ?case
  proof (cases "fst p = category e")
    case True
    then show ?thesis
      by (cases p) (simp add: tally_def dict_get_def foldl_float_add float_add_assoc [symmetric])
  next
    case False
    have "float_add z (snd p) \<noteq> NZero"
      using Cons.prems by (rule float_add_not_NZero)
    from Cons.IH [OF this] False show ?thesis
      by (cases p) (auto simp: tally_def dict_get_def)
  qed
qed

lemma total_after_tallies:
  "z \<noteq> NZero \<Longrightarrow>
   foldl float_add z (map snd (foldl tally d expenses)) =
     foldl float_add (foldl float_add z (map snd d)) (map amount expenses)"
proof (induction expenses arbitrary: d)
  case Nil
  show ?case by simp
next
  case (Cons e es)
  from Cons.IH [OF Cons.prems, of "tally d e"] total_after_tally [OF Cons.prems, of d e]
  show ?case by simp
qed

text \<open>
  C7.  For every list of parsed expense records (in particular one whose amounts are
  all non-negative), the per-category totals that \<open>summarize\<close> aggregates, summed over
  the categories, give the grand total it computes over all records.  On the exact
  values of the model the two sums are equal; rounding, which the tolerance of the
  claim allows for, is outside the model.
\<close>

theorem category_totals_sum_to_grand_total:
  "foldl float_add (Fin 0) (map snd (foldl tally [] expenses)) = sum_amounts expenses"
  by (simp add: total_after_tallies sum_amounts_def)

subsection \<open>The validation loops\<close>

text \<open>
  C9 does not hold of the code.  \<open>float\<close> accepts the text \<open>nan\<close>, and the loops reject a
  value only when it is less than 0, which NaN is not: the expense-entry loop and the
  budget loop both return NaN, and NaN is not greater than or equal to 0.
\<close>

theorem validation_loops_accept_nan:
  "fst (get_user_expense \<lparr>files = Map.empty, stdin = [''Coffee'', ''nan'', ''1''], stdout = []\<rparr>)
     = Inr \<lparr>name = ''Coffee'', category = ''Food'', amount = NaN\<rparr>
   \<and> fst (load_or_create_budget \<lparr>year = 2025, month = 6, day = 15\<rparr>
            \<lparr>files = Map.empty, stdin = [''nan''], stdout = []\<rparr>) = Inr NaN
   \<and> float_ge NaN (Fin 0) = False"
  by code_simp

subsection \<open>Carry-over of last month's budget\<close>

lemma float_str_5000: "float_str (Fin 5000) = ''5000.0''"
  by code_simp

text \<open>
  C5.  If this month has no budget record, today is day 1, the previous month's budget
  store holds a text that \<open>float\<close> reads as 5000, and the user's answer to the carry-over
  prompt is \<open>y\<close> (in any case, with any surrounding blanks), then \<open>load_or_create_budget\<close>
  asks once, creates this month's record with the text \<open>5000.0\<close>, whose value is 5000,
  and returns 5000.
\<close>

theorem carry_over_creates_budget:
  assumes absent: "files w (budget_file_for today) = None"
    and first_day: "day today = 1"
    and prev: "prev_month_date today = Inr prev_month"
    and stored: "files w (budget_file_for prev_month) = Some prev_text"
    and parsed: "float_of_str (strip prev_text) = Some (Fin 5000)"
    and answer: "stdin w = ans # rest"
    and yes: "lower (strip ans) = ''y''"
  shows "load_or_create_budget today w =
           (Inr (Fin 5000),
            w\<lparr>stdin := rest,
              stdout := stdout w @ [Ask_same_budget today (Fin 5000)],
              files := (files w)(budget_file_for today \<mapsto> ''5000.0'')\<rparr>)
         \<and> float_of_str (strip ''5000.0'') = Some (Fin 5000)"
proof -
  have "float_of_str (strip ''5000.0'') = Some (Fin 5000)"
    by code_simp
  moreover have "load_or_create_budget today w =
           (Inr (Fin 5000),
            w\<lparr>stdin := rest,
              stdout := stdout w @ [Ask_same_budget today (Fin 5000)],
              files := (files w)(budget_file_for today \<mapsto> ''5000.0'')\<rparr>)"
    using assms
    by (simp add: load_or_create_budget_def Let_def input_def print_def write_text_def
        float_str_5000 del: float_str.simps)
  ultimately show ?thesis by blast
qed

theorem carry_over_creates_budget_witness:
  "files \<lparr>files = [''budget_2025-05.txt'' \<mapsto> ''5000''], stdin = [''y''], stdout = []\<rparr> (budget_file_for \<lparr>year = 2025, month = 6, day = 1\<rparr>) = None
   \<and> day \<lparr>year = 2025, month = 6, day = 1\<rparr> = 1
   \<and> prev_month_date \<lparr>year = 2025, month = 6, day = 1\<rparr> = Inr \<lparr>year = 2025, month = 5, day = 31\<rparr>
   \<and> files \<lparr>files = [''budget_2025-05.txt'' \<mapsto> ''5000''], stdin = [''y''], stdout = []\<rparr> (budget_file_for \<lparr>year = 2025, month = 5, day = 31\<rparr>) = Some ''5000''
   \<and> float_of_str (strip ''5000'') = Some (Fin 5000)
   \<and> stdin \<lparr>files = [''budget_2025-05.txt'' \<mapsto> ''5000''], stdin = [''y''], stdout = []\<rparr> = [''y'']
   \<and> lower (strip ''y'') = ''y''
   \<and> fst (load_or_create_budget \<lparr>year = 2025, month = 6, day = 1\<rparr> \<lparr>files = [''budget_2025-05.txt'' \<mapsto> ''5000''], stdin = [''y''], stdout = []\<rparr>) = Inr (Fin 5000)
   \<and> files (snd (load_or_create_budget \<lparr>year = 2025, month = 6, day = 1\<rparr> \<lparr>files = [''budget_2025-05.txt'' \<mapsto> ''5000''], stdin = [''y''], stdout = []\<rparr>)) ''budget_2025-06.txt'' = Some ''5000.0''"
proof -
  have h1: "files \<lparr>files = [''budget_2025-05.txt'' \<mapsto> ''5000''], stdin = [''y''], stdout = []\<rparr> (budget_file_for \<lparr>year = 2025, month = 6, day = 1\<rparr>) = None"
    by code_simp
  have h2: "day \<lparr>year = 2025, month = 6, day = 1\<rparr> = 1"
    by code_simp
  have h3: "prev_month_date \<lparr>year = 2025, month = 6, day = 1\<rparr> = Inr \<lparr>year = 2025, month = 5, day = 31\<rparr>"
    by code_simp
  have h4: "files \<lparr>files = [''budget_2025-05.txt'' \<mapsto> ''5000''], stdin = [''y''], stdout = []\<rparr> (budget_file_for \<lparr>year = 2025, month = 5, day = 31\<rparr>) = Some ''5000''"
    by code_simp
  have h5: "float_of_str (strip ''5000'') = Some (Fin 5000)"
    by code_simp
  have h6: "stdin \<lparr>files = [''budget_2025-05.txt'' \<mapsto> ''5000''], stdin = [''y''], stdout = []\<rparr> = [''y'']"
    by code_simp
  have h7: "lower (strip ''y'') = ''y''"
    by code_simp
  have h8: "budget_file_for \<lparr>year = 2025, month = 6, day = 1\<rparr> = ''budget_2025-06.txt''"
    by code_simp
  note r = carry_over_creates_budget [OF h1 h2 h3 h4 h5 h6 h7, THEN conjunct1]
  have a: "fst (load_or_create_budget \<lparr>year = 2025, month = 6, day = 1\<rparr> \<lparr>files = [''budget_2025-05.txt'' \<mapsto> ''5000''], stdin = [''y''], stdout = []\<rparr>) = Inr (Fin 5000)"
    unfolding r by simp
  have b: "files (snd (load_or_create_budget \<lparr>year = 2025, month = 6, day = 1\<rparr> \<lparr>files = [''budget_2025-05.txt'' \<mapsto> ''5000''], stdin = [''y''], stdout = []\<rparr>)) ''budget_2025-06.txt'' = Some ''5000.0''"
    unfolding r h8 by simp
  from h1 h2 h3 h4 h5 h6 h7 a b show ?thesis by blast
qed


subsection \<open>Stripping blanks\<close>

lemma dropWhile_id: "xs = [] \<or> \<not> P (hd xs) \<Longrightarrow> dropWhile P xs = xs"
  by (cases xs) auto

lemma dropWhile_keeps_last:
  "xs \<noteq> [] \<Longrightarrow> \<not> P (last xs) \<Longrightarrow> dropWhile P xs \<noteq> [] \<and> last (dropWhile P xs) = last xs"
  by (induction xs) (auto split: if_splits)

lemma strip_ends:
  "strip s = [] \<or> (\<not> is_space (hd (strip s)) \<and> \<not> is_space (last (strip s)))"
proof (cases "dropWhile is_space s = []")
  case True
  show ?thesis unfolding strip_def True by simp
next
  case False
  let ?t = "dropWhile is_space s"
  have h: "\<not> is_space (hd ?t)" using False by (simp add: hd_dropWhile)
  let ?u = "dropWhile is_space (rev ?t)"
  have "rev ?t \<noteq> []" "\<not> is_space (last (rev ?t))"
    using False h by (simp_all add: last_rev)
  from dropWhile_keeps_last [of "rev ?t" is_space, OF this]
  have u: "?u \<noteq> []" "last ?u = hd ?t" using False by (simp_all add: last_rev)
  have "\<not> is_space (hd ?u)" using u(1) by (simp add: hd_dropWhile)
  then show ?thesis
    using u h by (simp add: strip_def hd_rev last_rev)
qed

lemma strip_id: "s = [] \<or> (\<not> is_space (hd s) \<and> \<not> is_space (last s)) \<Longrightarrow> strip s = s"
proof (cases "s = []")
  case True
  then show ?thesis by (simp add: strip_def)
next
  case False
  assume "s = [] \<or> (\<not> is_space (hd s) \<and> \<not> is_space (last s))"
  with False have h: "\<not> is_space (hd s)" "\<not> is_space (last s)" by auto
  have 1: "dropWhile is_space s = s" using h by (simp add: dropWhile_id)
  have 2: "dropWhile is_space (rev s) = rev s"
    using False h by (intro dropWhile_id) (simp add: hd_rev)
  show ?thesis by (simp add: strip_def 1 2)
qed

lemma strip_strip [simp]: "strip (strip s) = strip s"
  using strip_ends [of s] by (intro strip_id) auto

lemma strip_number_id:
  "s = [] \<or> (\<not> number_blank (hd s) \<and> \<not> number_blank (last s)) \<Longrightarrow> strip_number s = s"
proof (cases "s = []")
  case True
  then show ?thesis by (simp add: strip_number_def)
next
  case False
  assume "s = [] \<or> (\<not> number_blank (hd s) \<and> \<not> number_blank (last s))"
  with False have h: "\<not> number_blank (hd s)" "\<not> number_blank (last s)" by auto
  have 1: "dropWhile number_blank s = s" using h by (simp add: dropWhile_id)
  have 2: "dropWhile number_blank (rev s) = rev s"
    using False h by (intro dropWhile_id) (simp add: hd_rev)
  show ?thesis by (simp add: strip_number_def 1 2)
qed

subsection \<open>Lines, fields and the characters of a number\<close>

lemma split_on_not_Nil [simp]: "split_on sep s \<noteq> []"
  by (induction s) (auto split: list.splits)

lemma split_on_no_sep: "sep \<notin> set s \<Longrightarrow> split_on sep s = [s]"
  by (induction s) auto

lemma split_on_append:
  "sep \<notin> set a \<Longrightarrow> split_on sep (a @ sep # rest) = a # split_on sep rest"
  by (induction a) auto

lemma strip_line:
  assumes "x \<noteq> []" "\<not> is_space (hd x)" "\<not> is_space (last x)"
  shows "strip (x @ [CHR 0x0A]) = x"
proof -
  have 1: "dropWhile is_space (x @ [CHR 0x0A]) = x @ [CHR 0x0A]"
    using assms by (intro dropWhile_id) simp
  have 2: "dropWhile is_space (rev x) = rev x"
    using assms by (intro dropWhile_id) (simp add: hd_rev)
  show ?thesis
    by (simp add: strip_def 1 2 is_space_def)
qed

lemma universal_newlines_id: "CHR 0x0D \<notin> set t \<Longrightarrow> universal_newlines t = t"
  by (induction t rule: universal_newlines.induct) auto

lemma universal_newlines_append:
  "t \<noteq> [] \<Longrightarrow> hd t \<noteq> CHR 0x0A \<Longrightarrow>
   universal_newlines (s @ t) = universal_newlines s @ universal_newlines t"
proof (induction s rule: universal_newlines.induct)
  case 1
  then show ?case by simp
next
  case (2 c)
  then show ?case by (cases t) auto
next
  case (3 c d cs)
  then show ?case by auto
qed

lemma universal_newlines_last:
  "s \<noteq> [] \<Longrightarrow> last s = CHR 0x0A \<Longrightarrow>
   universal_newlines s \<noteq> [] \<and> last (universal_newlines s) = CHR 0x0A"
  by (induction s rule: universal_newlines.induct) (auto split: if_splits)

lemma universal_newlines_Nil [simp]: "universal_newlines s = [] \<longleftrightarrow> s = []"
  by (induction s rule: universal_newlines.induct) auto

lemma lines_of_Nil [simp]: "lines_of s = [] \<longleftrightarrow> s = []"
  by (cases s) (auto split: list.splits)

lemma lines_of_append:
  "s = [] \<or> last s = CHR 0x0A \<Longrightarrow> lines_of (s @ t) = lines_of s @ lines_of t"
proof (induction s)
  case Nil
  show ?case by simp
next
  case (Cons c cs)
  show ?case
  proof (cases "c = CHR 0x0A")
    case True
    with Cons show ?thesis by (cases "cs = []") auto
  next
    case False
    with Cons.prems have ne: "cs \<noteq> []" and l: "last cs = CHR 0x0A" by (auto split: if_splits)
    from Cons.IH ne l have "lines_of (cs @ t) = lines_of cs @ lines_of t" by simp
    moreover obtain l0 ls where "lines_of cs = l0 # ls"
      using ne by (cases "lines_of cs") auto
    ultimately show ?thesis using False by simp
  qed
qed

lemma lines_of_single: "CHR 0x0A \<notin> set l \<Longrightarrow> lines_of (l @ [CHR 0x0A]) = [l @ [CHR 0x0A]]"
  by (induction l) auto

lemma digit_char_mem: "k < 10 \<Longrightarrow> ''0123456789'' ! k \<in> digit_set"
  unfolding digit_set_def by (rule nth_mem) simp

lemma set_digit_chars: "set (digit_chars n) \<subseteq> digit_set"
proof (induction n rule: digit_chars.induct)
  case (1 n)
  show ?case
  proof (cases "n < 10")
    case True
    then show ?thesis
      by (subst digit_chars.simps) (simp add: digit_char_mem)
  next
    case False
    have "n mod 10 < 10" by simp
    with False 1 show ?thesis
      by (subst digit_chars.simps) (simp add: digit_char_mem del: nth_Cons_numeral)
  qed
qed

lemma digit_chars_not_Nil [simp]: "digit_chars n \<noteq> []"
  by (subst digit_chars.simps) simp

lemma zero_digit [simp]: "CHR ''0'' \<in> digit_set"
  by (simp add: digit_set_def)

lemma set_zfill: "set (zfill k s) \<subseteq> digit_set \<union> set s"
  by (auto simp: zfill_def)

lemma set_strip_zeros: "set (strip_zeros s) \<subseteq> set s"
  by (auto simp: strip_zeros_def dest: set_dropWhileD)

lemma set_format_repr:
  assumes "set ds \<subseteq> digit_set"
  shows "set (format_repr ds p) \<subseteq> digit_set \<union> set ''.e+-''"
proof -
  have t: "x \<in> digit_set" if "x \<in> set (take k ds)" for k x
    using assms that by (auto dest: in_set_takeD)
  have d: "x \<in> digit_set" if "x \<in> set (drop k ds)" for k x
    using assms that by (auto dest: in_set_dropD)
  have z: "x \<in> digit_set" if "x \<in> set (zfill 2 (digit_chars k))" for k x
    using set_zfill [of 2 "digit_chars k"] set_digit_chars [of k] that by blast
  show ?thesis
    unfolding format_repr_def using assms
    by (auto simp del: take_Suc_Cons dest: t d z)
qed

lemma set_float_str: "set (float_str a) \<subseteq> digit_set \<union> set ''.e+-infa''"
proof (cases a)
  case (Fin r)
  obtain ds p where sd: "shortest_digits \<bar>r\<bar> = (ds, p)"
    by (cases "shortest_digits \<bar>r\<bar>")
  then have "set ds \<subseteq> digit_set"
    using set_strip_zeros set_digit_chars
    by (auto simp: shortest_digits_def Let_def split: if_splits option.splits)
  from set_format_repr [OF this, of p] show ?thesis
    using Fin sd by auto
qed auto

lemma float_str_plain:
  "CHR '','' \<notin> set (float_str a)" "CHR 0x0A \<notin> set (float_str a)" "CHR 0x0D \<notin> set (float_str a)"
  using set_float_str [of a] by (auto simp: digit_set_def)

lemma date_str_plain:
  "CHR '','' \<notin> set (date_str d)" "CHR 0x0A \<notin> set (date_str d)" "CHR 0x0D \<notin> set (date_str d)"
  "date_str d \<noteq> []" "\<not> is_space (hd (date_str d))"
proof -
  have s: "set (date_str d) \<subseteq> digit_set \<union> {CHR ''-''}"
    using set_zfill [of 4 "digit_chars (year d)"] set_zfill [of 2 "digit_chars (month d)"]
      set_zfill [of 2 "digit_chars (day d)"] set_digit_chars
    unfolding date_str_def by auto blast+
  show "CHR '','' \<notin> set (date_str d)" "CHR 0x0A \<notin> set (date_str d)"
    "CHR 0x0D \<notin> set (date_str d)"
    using s by (auto simp: digit_set_def)
  show ne: "date_str d \<noteq> []" by (simp add: date_str_def)
  have "hd (date_str d) \<in> set (date_str d)" using ne by simp
  with s show "\<not> is_space (hd (date_str d))"
    by (auto simp: digit_set_def is_space_def)
qed

lemma catalog_category_plain:
  assumes "c \<in> set (map fst EXPENSE_CATEGORIES)"
  shows "CHR '','' \<notin> set c" "CHR 0x0A \<notin> set c" "CHR 0x0D \<notin> set c"
    "c \<noteq> []" "\<not> is_space (last c)"
  using assms by (auto simp: EXPENSE_CATEGORIES_def is_space_def)

lemma map_filter_append:
  "List.map_filter f (xs @ ys) = List.map_filter f xs @ List.map_filter f ys"
  by (simp add: List.map_filter_def)

lemma store_text_save_expense:
  "store_text (save_expense e path today w) path =
     store_text w path @ date_str today @ '','' @ name e @ '','' @ float_str (amount e)
       @ '','' @ category e @ [CHR 0x0A]"
  by (simp add: save_expense_def append_text_def print_def store_text_def)


subsection \<open>Digit strings\<close>

lemma digit_of_mem: "c \<in> digit_set \<Longrightarrow> digit_of c = Some (digit_value c)"
  by (auto simp: digit_set_def digit_of_def digit_value_def)

lemma underscore_not_digit [simp]: "CHR ''_'' \<notin> digit_set"
  by (simp add: digit_set_def)

lemma digitpart_digits:
  "s \<noteq> [] \<Longrightarrow> set s \<subseteq> digit_set \<Longrightarrow> digitpart s = Some (map digit_value s)"
proof (induction s rule: digitpart.induct)
  case 1
  then show ?case by simp
next
  case (2 c)
  then show ?case by (simp add: digit_of_mem)
next
  case (3 c c' cs)
  from 3 have "c' \<noteq> CHR ''_''" by auto
  with 3 show ?case by (simp add: digit_of_mem)
qed

lemma digit_value_nth: "k < 10 \<Longrightarrow> digit_value (''0123456789'' ! k) = k"
proof -
  have "\<forall>k \<in> set [0..<10]. digit_value (''0123456789'' ! k) = k"
    by code_simp
  then show "k < 10 \<Longrightarrow> digit_value (''0123456789'' ! k) = k"
    by simp
qed

lemma foldl_digits:
  "foldl (\<lambda>acc d. 10 * acc + d) a ds = a * 10 ^ length ds + foldl (\<lambda>acc d. 10 * acc + d) (0::nat) ds"
proof (induction ds arbitrary: a)
  case Nil
  show ?case by simp
next
  case (Cons d ds)
  let ?f = "\<lambda>acc d. 10 * acc + (d::nat)"
  have "foldl ?f a (d # ds) = foldl ?f (10 * a + d) ds" by simp
  also have "\<dots> = (10 * a + d) * 10 ^ length ds + foldl ?f 0 ds" by (rule Cons.IH)
  finally have l: "foldl ?f a (d # ds) = (10 * a + d) * 10 ^ length ds + foldl ?f 0 ds" .
  have "foldl ?f 0 (d # ds) = foldl ?f d ds" by simp
  also have "\<dots> = d * 10 ^ length ds + foldl ?f 0 ds" by (rule Cons.IH)
  finally have r: "foldl ?f 0 (d # ds) = d * 10 ^ length ds + foldl ?f 0 ds" .
  show ?case unfolding l r by (simp add: algebra_simps)
qed

lemma digits_value_append:
  "digits_value (xs @ ys) = digits_value xs * 10 ^ length ys + digits_value ys"
  using foldl_digits [of "digits_value xs" ys] by simp

lemma str_value_append:
  "str_value (s @ t) = str_value s * 10 ^ length t + str_value t"
  by (simp add: str_value_def digits_value_append del: digits_value.simps)

lemma str_value_Nil [simp]: "str_value [] = 0"
  by (simp add: str_value_def)

lemma str_value_zeros [simp]: "str_value (replicate k CHR ''0'') = 0"
proof (induction k)
  case 0
  show ?case by simp
next
  case (Suc k)
  have "digit_value CHR ''0'' = 0" by code_simp
  then have "str_value [CHR ''0''] = 0" by (simp add: str_value_def)
  with Suc show ?case
    using str_value_append [of "[CHR ''0'']" "replicate k CHR ''0''"] by simp
qed

lemma str_value_digit_chars: "str_value (digit_chars n) = n"
proof (induction n rule: digit_chars.induct)
  case (1 n)
  show ?case
  proof (cases "n < 10")
    case True
    then show ?thesis
      by (subst digit_chars.simps) (simp add: str_value_def digit_value_nth del: nth_Cons_numeral)
  next
    case False
    have m: "n mod 10 < 10" by simp
    have "str_value [''0123456789'' ! (n mod 10)] = n mod 10"
      using digit_value_nth [OF m] by (simp add: str_value_def del: nth_Cons_numeral)
    with False 1 show ?thesis
      by (subst digit_chars.simps) (simp add: str_value_append del: nth_Cons_numeral)
  qed
qed

lemma takeWhile_eq_replicate:
  "takeWhile (\<lambda>c. c = z) xs = replicate (length (takeWhile (\<lambda>c. c = z) xs)) z"
  by (induction xs) auto

lemma strip_zeros_decomp:
  "s = strip_zeros s @ replicate (length s - length (strip_zeros s)) CHR ''0''"
proof -
  let ?P = "\<lambda>c. c = CHR ''0''"
  let ?k = "length (takeWhile ?P (rev s))"
  have "rev s = takeWhile ?P (rev s) @ dropWhile ?P (rev s)" by simp
  then have "rev s = replicate ?k CHR ''0'' @ dropWhile ?P (rev s)"
    using takeWhile_eq_replicate [of "CHR ''0''" "rev s"] by simp
  then have "rev (rev s) = rev (replicate ?k CHR ''0'' @ dropWhile ?P (rev s))" by simp
  then have s: "s = strip_zeros s @ replicate ?k CHR ''0''"
    by (simp add: strip_zeros_def)
  then have "length s = length (strip_zeros s) + ?k"
    by (metis length_append length_replicate)
  then have "?k = length s - length (strip_zeros s)" by simp
  with s show ?thesis by simp
qed

lemma str_value_strip_zeros:
  "str_value s = str_value (strip_zeros s) * 10 ^ (length s - length (strip_zeros s))"
  using str_value_append [of "strip_zeros s" "replicate (length s - length (strip_zeros s)) CHR ''0''"]
    strip_zeros_decomp [of s] by simp

lemma length_strip_zeros: "length (strip_zeros s) \<le> length s"
  using strip_zeros_decomp [of s] by (metis le_add1 length_append)

lemma strip_zeros_digit_chars_not_Nil: "0 < m \<Longrightarrow> strip_zeros (digit_chars m) \<noteq> []"
  using str_value_strip_zeros [of "digit_chars m"] by (auto simp: str_value_digit_chars)

subsection \<open>The grammar of decimal numbers\<close>

lemma split_first_none:
  "(\<forall>c \<in> set s. \<not> P c) \<Longrightarrow> split_first P s = (s, None)"
proof -
  assume a: "\<forall>c \<in> set s. \<not> P c"
  then have d: "dropWhile (\<lambda>c. \<not> P c) s = []" by simp
  show ?thesis unfolding split_first_def d by simp
qed

lemma split_first_some:
  assumes "\<forall>c \<in> set a. \<not> P c" and "P x"
  shows "split_first P (a @ x # rest) = (a, Some rest)"
proof -
  have d: "dropWhile (\<lambda>c. \<not> P c) (a @ x # rest) = x # rest"
    using assms by (simp add: dropWhile_append)
  have t: "takeWhile (\<lambda>c. \<not> P c) (a @ x # rest) = a"
    using assms by (simp add: takeWhile_append)
  show ?thesis by (simp add: split_first_def d t)
qed

lemma dot_not_digit: "c \<in> digit_set \<Longrightarrow> c \<noteq> CHR ''.'' \<and> c \<noteq> CHR ''e'' \<and> c \<noteq> CHR ''E''
    \<and> c \<noteq> CHR ''-'' \<and> c \<noteq> CHR ''+'' \<and> \<not> is_space c \<and> \<not> number_blank c"
  by (auto simp: digit_set_def is_space_def number_blank_def)

lemma digitpart_value:
  "s \<noteq> [] \<Longrightarrow> set s \<subseteq> digit_set \<Longrightarrow>
   map_option digits_value (digitpart s) = Some (str_value s)"
  by (simp add: digitpart_digits str_value_def del: digits_value.simps)

lemma parse_mantissa_plain:
  assumes "i \<noteq> []" "set i \<subseteq> digit_set"
  shows "parse_mantissa i = Some (of_nat (str_value i))"
proof -
  have "\<forall>c \<in> set i. \<not> c = CHR ''.''" using assms dot_not_digit by blast
  then have "split_first (\<lambda>c. c = CHR ''.'') i = (i, None)" by (rule split_first_none)
  then show ?thesis
    using assms by (simp add: parse_mantissa_def digitpart_digits str_value_def del: digits_value.simps)
qed

lemma parse_mantissa_point:
  assumes "set i \<subseteq> digit_set" "set f \<subseteq> digit_set" "i \<noteq> [] \<or> f \<noteq> []"
  shows "parse_mantissa (i @ ''.'' @ f) =
           Some (of_nat (str_value i) + of_nat (str_value f) / 10 ^ length f)"
proof -
  have "\<forall>c \<in> set i. \<not> c = CHR ''.''" using assms dot_not_digit by blast
  then have sp: "split_first (\<lambda>c. c = CHR ''.'') (i @ CHR ''.'' # f) = (i, Some f)"
    by (rule split_first_some) simp
  have i: "(if i = [] then Some [] else digitpart i) = Some (map digit_value i)"
    using assms by (simp add: digitpart_digits)
  have f: "(if f = [] then Some [] else digitpart f) = Some (map digit_value f)"
    using assms by (simp add: digitpart_digits)
  show ?thesis
    using assms(3) sp
    by (simp add: parse_mantissa_def i f str_value_def del: digits_value.simps)
qed

lemma set_zfill_digits: "set s \<subseteq> digit_set \<Longrightarrow> set (zfill w s) \<subseteq> digit_set"
  using set_zfill [of w s] by auto

lemma str_value_zfill [simp]: "str_value (zfill w s) = str_value s"
  by (simp add: zfill_def str_value_append)

lemma parse_exponent_signed:
  "parse_exponent (Some ((if neg then ''-'' else ''+'') @ zfill 2 (digit_chars k))) =
     Some (if neg then - int k else int k)"
proof -
  let ?z = "zfill 2 (digit_chars k)"
  have z: "?z \<noteq> []" "set ?z \<subseteq> digit_set"
    using set_zfill_digits [OF set_digit_chars] by (simp_all add: zfill_def)
  have ts: "take_sign ((if neg then ''-'' else ''+'') @ ?z) = (neg, ?z)"
    by (simp add: take_sign_def)
  have "str_value ?z = k" by (simp add: str_value_digit_chars)
  then show ?thesis
    using z by (simp add: parse_exponent_def ts digitpart_digits str_value_def
        del: digits_value.simps)
qed

lemma pow10_powi: "pow10 e = 10 powi e"
  by (simp add: pow10_def power_int_def inverse_eq_divide power_one_over)

lemma pow10_add: "pow10 (a + b) = pow10 a * pow10 b"
  by (simp add: pow10_powi power_int_add)

lemma pow10_nat [simp]: "pow10 (int k) = 10 ^ k"
  by (simp add: pow10_def)

lemma pow10_neg_nat: "pow10 (- int k) = 1 / 10 ^ k"
proof (cases "k = 0")
  case True
  then show ?thesis by (simp add: pow10_def)
next
  case False
  then have "\<not> 0 \<le> - int k" by simp
  then show ?thesis unfolding pow10_def by simp
qed

lemma pow10_pos [simp]: "0 < pow10 e"
  by (simp add: pow10_def)

lemma str_value_take_drop:
  "str_value (take k ds) * 10 ^ (length ds - k) + str_value (drop k ds) = str_value ds"
  using str_value_append [of "take k ds" "drop k ds"] by simp

lemma no_exp_letter:
  "set s \<subseteq> digit_set \<union> {CHR ''.''} \<Longrightarrow> \<forall>c \<in> set s. \<not> (c = CHR ''e'' \<or> c = CHR ''E'')"
  using dot_not_digit by auto

lemma parse_decimal_no_exponent:
  assumes "set m \<subseteq> digit_set \<union> {CHR ''.''}" "parse_mantissa m = Some q"
  shows "parse_decimal m = Some q"
proof -
  have "split_first (\<lambda>c. c = CHR ''e'' \<or> c = CHR ''E'') m = (m, None)"
    using no_exp_letter [OF assms(1)] by (rule split_first_none)
  then show ?thesis
    using assms(2) by (simp add: parse_decimal_def parse_exponent_def pow10_def)
qed

lemma parse_decimal_exponent:
  assumes "set m \<subseteq> digit_set \<union> {CHR ''.''}" "parse_mantissa m = Some q"
  shows "parse_decimal (m @ ''e'' @ (if neg then ''-'' else ''+'') @ zfill 2 (digit_chars k)) =
           Some (q * pow10 (if neg then - int k else int k))"
proof -
  have "split_first (\<lambda>c. c = CHR ''e'' \<or> c = CHR ''E'')
          (m @ CHR ''e'' # (if neg then ''-'' else ''+'') @ zfill 2 (digit_chars k)) =
        (m, Some ((if neg then ''-'' else ''+'') @ zfill 2 (digit_chars k)))"
    using no_exp_letter [OF assms(1)] by (rule split_first_some) simp
  then show ?thesis
    using assms(2) parse_exponent_signed [of neg k]
    by (simp add: parse_decimal_def del: pow10_nat)
qed

lemma parse_decimal_format_repr:
  assumes ne: "ds \<noteq> []" and dg: "set ds \<subseteq> digit_set"
  shows "parse_decimal (format_repr ds p) =
           Some (of_nat (str_value ds) * pow10 (p - int (length ds)))"
proof -
  let ?n = "length ds"
  let ?D = "of_nat (str_value ds) :: rat"
  have n: "0 < ?n" using ne by simp
  have tk: "set (take k ds) \<subseteq> digit_set" for k
    using dg by (auto dest: in_set_takeD)
  have dr: "set (drop k ds) \<subseteq> digit_set" for k
    using dg by (auto dest: in_set_dropD)
  have split_value: "of_nat (str_value (take k ds)) + of_nat (str_value (drop k ds)) / 10 ^ (?n - k)
      = ?D / 10 ^ (?n - k)" for k
  proof -
    have "?D = of_nat (str_value (take k ds)) * 10 ^ (?n - k) + of_nat (str_value (drop k ds))"
      using str_value_take_drop [of k ds, symmetric] by (simp only: of_nat_add of_nat_mult of_nat_power of_nat_numeral)
    then show ?thesis by (simp add: field_simps)
  qed
  consider (sci) "p \<le> - 4 \<or> p > 16"
    | (small) "\<not> (p \<le> - 4 \<or> p > 16)" "p \<le> 0"
    | (mid) "\<not> (p \<le> - 4 \<or> p > 16)" "\<not> p \<le> 0" "nat p < ?n"
    | (big) "\<not> (p \<le> - 4 \<or> p > 16)" "\<not> p \<le> 0" "\<not> nat p < ?n"
    by blast
  then show ?thesis
  proof cases
    case sci
    let ?m = "take 1 ds @ (if ?n > 1 then ''.'' @ drop 1 ds else [])"
    let ?neg = "p - 1 < 0"
    let ?k = "nat \<bar>p - 1\<bar>"
    have body: "format_repr ds p = ?m @ ''e'' @ (if ?neg then ''-'' else ''+'') @ zfill 2 (digit_chars ?k)"
      using sci by (simp add: format_repr_def)
    have ms: "set ?m \<subseteq> digit_set \<union> {CHR ''.''}"
      using tk [of 1] dr [of 1] by auto
    have mv: "parse_mantissa ?m = Some (?D / 10 ^ (?n - 1))"
    proof (cases "?n > 1")
      case True
      have "parse_mantissa (take 1 ds @ ''.'' @ drop 1 ds) =
              Some (of_nat (str_value (take 1 ds)) + of_nat (str_value (drop 1 ds)) / 10 ^ length (drop 1 ds))"
        using tk [of 1] dr [of 1] ne by (intro parse_mantissa_point) auto
      then show ?thesis
        using True split_value [of 1] by simp
    next
      case False
      with ne have one: "?n = 1" by (cases ds) auto
      then have "take 1 ds = ds" by simp
      then show ?thesis
        using False one parse_mantissa_plain [OF ne dg] by simp
    qed
    have e: "(if ?neg then - int ?k else int ?k) = p - 1" by simp
    have "parse_decimal (format_repr ds p) = Some (?D / 10 ^ (?n - 1) * pow10 (p - 1))"
      unfolding body using parse_decimal_exponent [OF ms mv, of ?neg ?k] e by simp
    moreover have "pow10 (p - 1) = pow10 (p - int ?n) * 10 ^ (?n - 1)"
    proof -
      have eq: "p - 1 = (p - int ?n) + int (?n - 1)" using ne by (cases ds) auto
      show ?thesis by (subst eq) (simp only: pow10_add pow10_nat)
    qed
    ultimately show ?thesis by simp
  next
    case small
    let ?z = "replicate (nat (- p)) CHR ''0''"
    have body: "format_repr ds p = ''0'' @ ''.'' @ (?z @ ds)"
      using small by (simp add: format_repr_def)
    have zs: "set (?z @ ds) \<subseteq> digit_set" using dg by auto
    have "parse_mantissa (''0'' @ ''.'' @ (?z @ ds)) =
            Some (of_nat (str_value ''0'') + of_nat (str_value (?z @ ds)) / 10 ^ length (?z @ ds))"
      using zs by (intro parse_mantissa_point) auto
    moreover have "str_value ''0'' = 0" using str_value_zeros [of 1] by simp
    moreover have "str_value (?z @ ds) = str_value ds" by (simp add: str_value_append)
    ultimately have mv: "parse_mantissa (format_repr ds p) = Some (?D / 10 ^ (nat (- p) + ?n))"
      unfolding body by simp
    have ms: "set (format_repr ds p) \<subseteq> digit_set \<union> {CHR ''.''}"
      unfolding body using zs by auto
    have "pow10 (p - int ?n) = 1 / 10 ^ (nat (- p) + ?n)"
    proof -
      have eq: "p - int ?n = - int (nat (- p) + ?n)" using small by simp
      show ?thesis by (subst eq) (rule pow10_neg_nat)
    qed
    then show ?thesis
      using parse_decimal_no_exponent [OF ms mv] by simp
  next
    case mid
    have body: "format_repr ds p = take (nat p) ds @ ''.'' @ drop (nat p) ds"
      using mid by (simp add: format_repr_def)
    have "parse_mantissa (take (nat p) ds @ ''.'' @ drop (nat p) ds) =
            Some (of_nat (str_value (take (nat p) ds))
                  + of_nat (str_value (drop (nat p) ds)) / 10 ^ length (drop (nat p) ds))"
      using tk [of "nat p"] dr [of "nat p"] ne mid by (intro parse_mantissa_point) auto
    then have mv: "parse_mantissa (format_repr ds p) = Some (?D / 10 ^ (?n - nat p))"
      unfolding body using split_value [of "nat p"] by simp
    have ms: "set (format_repr ds p) \<subseteq> digit_set \<union> {CHR ''.''}"
      unfolding body using tk [of "nat p"] dr [of "nat p"] by auto
    have "pow10 (p - int ?n) = 1 / 10 ^ (?n - nat p)"
    proof -
      have eq: "p - int ?n = - int (?n - nat p)" using mid by simp
      show ?thesis by (subst eq) (rule pow10_neg_nat)
    qed
    then show ?thesis
      using parse_decimal_no_exponent [OF ms mv] by simp
  next
    case big
    let ?z = "replicate (nat p - ?n) CHR ''0''"
    have body: "format_repr ds p = (ds @ ?z) @ ''.'' @ ''0''"
      using big by (simp add: format_repr_def)
    have zs: "set (ds @ ?z) \<subseteq> digit_set" using dg by auto
    have "parse_mantissa ((ds @ ?z) @ ''.'' @ ''0'') =
            Some (of_nat (str_value (ds @ ?z)) + of_nat (str_value ''0'') / 10 ^ length ''0'')"
      using zs ne by (intro parse_mantissa_point) auto
    moreover have "str_value ''0'' = 0" using str_value_zeros [of 1] by simp
    moreover have "str_value (ds @ ?z) = str_value ds * 10 ^ (nat p - ?n)"
      by (simp add: str_value_append)
    ultimately have mv: "parse_mantissa (format_repr ds p) = Some (?D * 10 ^ (nat p - ?n))"
      unfolding body by simp
    have ms: "set (format_repr ds p) \<subseteq> digit_set \<union> {CHR ''.''}"
      unfolding body using zs by auto
    have "pow10 (p - int ?n) = 10 ^ (nat p - ?n)"
    proof -
      have eq: "p - int ?n = int (nat p - ?n)" using big by simp
      show ?thesis by (subst eq) (rule pow10_nat)
    qed
    then show ?thesis
      using parse_decimal_no_exponent [OF ms mv] by simp
  qed
qed

subsection \<open>The digits that \<open>str\<close> writes\<close>

lemma dec_places_dvd: "0 < d \<Longrightarrow> dec_places d = Some j \<Longrightarrow> d dvd 10 ^ j"
proof (induction d arbitrary: j rule: dec_places.induct)
  case (1 d)
  show ?case
  proof (cases "d \<le> 1")
    case True
    with 1(2) have "d = 1" by simp
    then show ?thesis by simp
  next
    case False
    let ?g = "gcd d 10"
    from False 1(3) have g: "?g \<noteq> 1"
      by (subst (asm) dec_places.simps) (auto split: if_splits)
    from False g 1(3) obtain j' where j': "dec_places (d div ?g) = Some j'" and j: "j = Suc j'"
      by (subst (asm) dec_places.simps) (auto split: if_splits)
    have "?g \<le> d" using 1(2) by (simp add: gcd_le1_nat)
    then have pos: "0 < d div ?g"
      by (simp add: div_greater_zero_iff)
    have "d div ?g dvd 10 ^ j'"
      using 1(1) [OF False g pos j'] .
    then have "?g * (d div ?g) dvd ?g * 10 ^ j'" by (rule mult_dvd_mono [OF dvd_refl])
    moreover have "?g * (d div ?g) = d" by (rule dvd_mult_div_cancel) simp
    ultimately have "d dvd ?g * 10 ^ j'" by (simp only:)
    moreover have "?g * 10 ^ j' dvd 10 * 10 ^ j'" by (simp add: mult_dvd_mono)
    ultimately have "d dvd 10 * 10 ^ j'" by (rule dvd_trans)
    then show ?thesis by (simp add: j)
  qed
qed

lemma dec_places_complete: "0 < d \<Longrightarrow> d dvd 10 ^ k \<Longrightarrow> dec_places d \<noteq> None"
proof (induction d rule: dec_places.induct)
  case (1 d)
  show ?case
  proof (cases "d \<le> 1")
    case True
    then show ?thesis by (subst dec_places.simps) simp
  next
    case False
    let ?g = "gcd d 10"
    have g: "?g \<noteq> 1"
    proof
      assume "?g = 1"
      then have "coprime d 10" by (simp add: coprime_iff_gcd_eq_1)
      then have "coprime d (10 ^ k)" by simp
      then have "d = 1"
        using dvd_refl 1(3) by (rule coprime_common_divisor_nat)
      with False show False by simp
    qed
    have "?g \<le> d" using 1(2) by (simp add: gcd_le1_nat)
    then have pos: "0 < d div ?g"
      by (simp add: div_greater_zero_iff)
    have "d = (d div ?g) * ?g" by simp
    then have "d div ?g dvd d" by (rule dvdI)
    then have "d div ?g dvd 10 ^ k" using 1(3) by (rule dvd_trans)
    from 1(1) [OF False g pos this] show ?thesis
      using False g by (subst dec_places.simps) auto
  qed
qed

lemma quotient_of_parts:
  assumes "quotient_of a = (n, d)"
  shows "0 < d" "a = of_int n / of_int d" "coprime n d"
  using assms quotient_of_denom_pos [OF assms] quotient_of_div [OF assms]
    quotient_of_coprime [OF assms] by auto

lemma scaled_integer:
  fixes a :: rat
  assumes q: "quotient_of a = (n, d)" and dv: "d dvd 10 ^ j" and pos: "0 < a"
  shows "of_nat (nat \<lfloor>a * 10 ^ j\<rfloor>) = a * 10 ^ j"
proof -
  note qp = quotient_of_parts [OF q]
  from dv obtain k where k: "10 ^ j = d * k" by (auto simp: dvd_def)
  have "a * 10 ^ j = (of_int n / of_int d) * of_int (10 ^ j)"
    by (simp add: qp(2))
  also have "\<dots> = (of_int n / of_int d) * (of_int d * of_int k)"
    by (simp only: k of_int_mult)
  also have "\<dots> = of_int (n * k)"
    using qp(1) by simp
  finally have eq: "a * 10 ^ j = of_int (n * k)" .
  have "0 < a * 10 ^ j" using pos by simp
  then have "(0::rat) < of_int (n * k)" by (simp only: eq)
  then have "0 < n * k" by (simp only: of_int_0_less_iff)
  then have "of_nat (nat (n * k)) = (of_int (n * k) :: rat)" by simp
  then show ?thesis by (simp only: eq floor_of_int)
qed

lemma denominator_dvd:
  fixes r :: rat
  assumes "r * 10 ^ K = of_int z"
  shows "snd (quotient_of r) dvd 10 ^ K"
proof -
  obtain n d where q: "quotient_of r = (n, d)" by (cases "quotient_of r")
  note qp = quotient_of_parts [OF q]
  have "of_int n * 10 ^ K = (of_int z * of_int d :: rat)"
    using assms qp(1) by (simp add: qp(2) field_simps)
  then have "(of_int (n * 10 ^ K) :: rat) = of_int (z * d)" by simp
  then have "n * 10 ^ K = z * d" by (simp only: of_int_eq_iff)
  then have "d dvd n * 10 ^ K" by simp
  moreover have "coprime d n" using qp(3) by (simp add: coprime_commute)
  ultimately have "d dvd 10 ^ K" by (simp add: coprime_dvd_mult_right_iff)
  then show ?thesis by (simp add: q)
qed

lemma shortest_digits_value:
  assumes pos: "0 < a" and dp: "dec_places (nat (snd (quotient_of a))) = Some j"
    and sd: "shortest_digits a = (ds, p)"
  shows "ds \<noteq> []" "set ds \<subseteq> digit_set"
    "a = of_nat (str_value ds) * pow10 (p - int (length ds))"
proof -
  obtain n d where q: "quotient_of a = (n, d)" by (cases "quotient_of a")
  note qp = quotient_of_parts [OF q]
  have "nat d dvd 10 ^ j"
    using dec_places_dvd [of "nat d" j] dp qp(1) by (simp add: q)
  then have "int (nat d) dvd int (10 ^ j)" by (simp only: int_dvd_int_iff)
  then have dv: "d dvd 10 ^ j" using qp(1) by simp
  let ?m = "nat \<lfloor>a * 10 ^ j\<rfloor>"
  let ?ds0 = "digit_chars ?m"
  have m: "of_nat ?m = a * 10 ^ j" by (rule scaled_integer [OF q dv pos])
  have mpos: "0 < ?m"
  proof -
    have "0 < a * 10 ^ j" using pos by simp
    then have "(0::rat) < of_nat ?m" by (simp only: m)
    then show ?thesis by simp
  qed
  from sd dp have ds: "ds = strip_zeros ?ds0" and p: "p = int (length ?ds0) - int j"
    by (simp_all add: shortest_digits_def Let_def)
  show "ds \<noteq> []" unfolding ds by (rule strip_zeros_digit_chars_not_Nil [OF mpos])
  show "set ds \<subseteq> digit_set"
    unfolding ds using set_strip_zeros [of ?ds0] set_digit_chars [of ?m] by blast
  let ?t = "length ?ds0 - length ds"
  have len: "length ds \<le> length ?ds0" unfolding ds by (rule length_strip_zeros)
  have mv: "?m = str_value ds * 10 ^ ?t"
    using str_value_strip_zeros [of ?ds0] by (simp add: str_value_digit_chars ds)
  have "(of_nat ?m :: rat) = of_nat (str_value ds * 10 ^ ?t)"
    by (rule arg_cong [OF mv])
  then have "a * 10 ^ j = of_nat (str_value ds) * 10 ^ ?t"
    by (simp only: m of_nat_mult of_nat_power of_nat_numeral)
  then have a: "a = of_nat (str_value ds) * 10 ^ ?t / 10 ^ j"
    by (simp add: field_simps)
  have "p - int (length ds) = int ?t + (- int j)" using len p by simp
  then have "pow10 (p - int (length ds)) = 10 ^ ?t * (1 / 10 ^ j)"
    by (simp only: pow10_add pow10_nat pow10_neg_nat)
  then show "a = of_nat (str_value ds) * pow10 (p - int (length ds))"
    using a by simp
qed

subsection \<open>\<open>float\<close> reads back what \<open>str\<close> writes\<close>

lemma format_repr_ends:
  assumes ne: "ds \<noteq> []" and dg: "set ds \<subseteq> digit_set"
  shows "format_repr ds p \<noteq> []" "hd (format_repr ds p) \<in> digit_set"
    "last (format_repr ds p) \<in> digit_set"
proof -
  let ?n = "length ds"
  have h: "hd ds \<in> digit_set" and l: "last ds \<in> digit_set"
    using ne dg by auto
  have t: "take k ds \<noteq> []" "hd (take k ds) = hd ds" if kp: "0 < k" for k
  proof -
    obtain c cs where ds: "ds = c # cs" using ne by (cases ds) auto
    obtain k' where k: "k = Suc k'" using kp by (cases k) auto
    show "take k ds \<noteq> []" "hd (take k ds) = hd ds"
      unfolding ds k by simp_all
  qed
  consider (sci) "p \<le> - 4 \<or> p > 16"
    | (small) "\<not> (p \<le> - 4 \<or> p > 16)" "p \<le> 0"
    | (mid) "\<not> (p \<le> - 4 \<or> p > 16)" "\<not> p \<le> 0" "nat p < ?n"
    | (big) "\<not> (p \<le> - 4 \<or> p > 16)" "\<not> p \<le> 0" "\<not> nat p < ?n"
    by blast
  then have "format_repr ds p \<noteq> [] \<and> hd (format_repr ds p) \<in> digit_set
      \<and> last (format_repr ds p) \<in> digit_set"
  proof cases
    case sci
    let ?z = "zfill 2 (digit_chars (nat \<bar>p - 1\<bar>))"
    let ?mid = "(if ?n > 1 then ''.'' @ drop 1 ds else []) @ ''e''
                  @ (if p - 1 < 0 then ''-'' else ''+'')"
    have body: "format_repr ds p = take 1 ds @ ?mid @ ?z"
      using sci by (simp add: format_repr_def)
    have zn: "?z \<noteq> []" by (simp add: zfill_def)
    then have "last ?z \<in> set ?z" by (rule last_in_set)
    then have zl: "last ?z \<in> digit_set"
      using set_zfill_digits [OF set_digit_chars, of 2 "nat \<bar>p - 1\<bar>"] by blast
    have t1: "take 1 ds \<noteq> []" "hd (take 1 ds) = hd ds"
      using t [of 1] by simp_all
    have "hd (take 1 ds @ ?mid @ ?z) = hd (take 1 ds)"
      using t1(1) by (rule hd_append2)
    then have a: "hd (take 1 ds @ ?mid @ ?z) = hd ds"
      using t1(2) by (rule trans)
    have mz: "?mid @ ?z \<noteq> []"
      using zn by blast
    have "last (take 1 ds @ ?mid @ ?z) = last (?mid @ ?z)"
      using mz by (rule last_appendR)
    also have "\<dots> = last ?z"
      using zn by (rule last_appendR)
    finally have b: "last (take 1 ds @ ?mid @ ?z) = last ?z" .
    have c: "take 1 ds @ ?mid @ ?z \<noteq> []"
      using t1(1) by blast
    show ?thesis
      unfolding body a b using h zl c by blast
  next
    case small
    have body: "format_repr ds p = ''0.'' @ replicate (nat (- p)) CHR ''0'' @ ds"
      using small by (simp add: format_repr_def)
    show ?thesis unfolding body using ne l by simp
  next
    case mid
    have body: "format_repr ds p = take (nat p) ds @ ''.'' @ drop (nat p) ds"
      using mid by (simp add: format_repr_def)
    have "0 < nat p" using mid by simp
    note tp = t [OF this]
    have dn: "drop (nat p) ds \<noteq> []" using mid by simp
    have "hd (take (nat p) ds @ ''.'' @ drop (nat p) ds) = hd (take (nat p) ds)"
      using tp(1) by (rule hd_append2)
    then have a: "hd (take (nat p) ds @ ''.'' @ drop (nat p) ds) = hd ds"
      using tp(2) by (rule trans)
    have "last ((take (nat p) ds @ ''.'') @ drop (nat p) ds) = last (drop (nat p) ds)"
      using dn by (rule last_appendR)
    also have "\<dots> = last ds"
      using mid by (simp add: last_drop)
    finally have b: "last (take (nat p) ds @ ''.'' @ drop (nat p) ds) = last ds"
      by simp
    have c: "take (nat p) ds @ ''.'' @ drop (nat p) ds \<noteq> []"
      using tp(1) by blast
    show ?thesis unfolding body a b using h l c by blast
  next
    case big
    have body: "format_repr ds p = ds @ replicate (nat p - ?n) CHR ''0'' @ ''.0''"
      using big by (simp add: format_repr_def)
    have a: "hd (ds @ replicate (nat p - ?n) CHR ''0'' @ ''.0'') = hd ds"
      using ne by (rule hd_append2)
    show ?thesis unfolding body a using h ne by simp
  qed
  then show "format_repr ds p \<noteq> []" "hd (format_repr ds p) \<in> digit_set"
    "last (format_repr ds p) \<in> digit_set"
    by simp_all
qed

lemma digit_first_not_word:
  assumes "body \<noteq> []" "hd body \<in> digit_set"
  shows "lower body \<noteq> ''inf''" "lower body \<noteq> ''infinity''" "lower body \<noteq> ''nan''"
    "take_sign body = (False, body)"
proof -
  obtain c cs where b: "body = c # cs" using assms(1) by (cases body) auto
  with assms(2) have c: "c \<in> digit_set" by simp
  have lc: "lower_char c \<in> digit_set"
  proof -
    have "\<forall>d \<in> set ''0123456789''. lower_char d \<in> set ''0123456789''"
      by code_simp
    then show ?thesis using c unfolding digit_set_def by blast
  qed
  have nl: "CHR ''i'' \<notin> digit_set" "CHR ''n'' \<notin> digit_set" "CHR ''-'' \<notin> digit_set"
    "CHR ''+'' \<notin> digit_set"
    by (simp_all add: digit_set_def)
  have hl: "hd (lower body) = lower_char c"
    by (simp add: b lower_def)
  show "lower body \<noteq> ''inf''"
  proof
    assume "lower body = ''inf''"
    then have "hd (lower body) = CHR ''i''" by simp
    with hl lc nl show False by simp
  qed
  show "lower body \<noteq> ''infinity''"
  proof
    assume "lower body = ''infinity''"
    then have "hd (lower body) = CHR ''i''" by simp
    with hl lc nl show False by simp
  qed
  show "lower body \<noteq> ''nan''"
  proof
    assume "lower body = ''nan''"
    then have "hd (lower body) = CHR ''n''" by simp
    with hl lc nl show False by simp
  qed
  have "c \<noteq> CHR ''-''" "c \<noteq> CHR ''+''"
    using c nl by auto
  then show "take_sign body = (False, body)"
    by (simp add: b take_sign_def)
qed

lemma float_of_str_signed:
  assumes ne: "body \<noteq> []" and h: "hd body \<in> digit_set" and l: "last body \<in> digit_set"
    and pd: "parse_decimal body = Some q"
  shows "float_of_str ((if neg then ''-'' else []) @ body) = Some (float_of_decimal neg q)"
proof -
  let ?s = "(if neg then ''-'' else []) @ body"
  have minus: "\<not> number_blank CHR ''-''"
    by (simp add: number_blank_def)
  have hs: "\<not> number_blank (hd ?s)"
  proof (cases neg)
    case True
    then show ?thesis using minus by simp
  next
    case False
    then show ?thesis using ne h dot_not_digit [of "hd body"] by simp
  qed
  have ls: "\<not> number_blank (last ?s)"
    using ne l dot_not_digit [of "last body"] by simp
  have st: "strip_number ?s = ?s"
    using hs ls by (intro strip_number_id) simp
  have ts: "take_sign ?s = (neg, body)"
  proof (cases neg)
    case True
    then show ?thesis by (simp add: take_sign_def)
  next
    case False
    then show ?thesis using digit_first_not_word(4) [OF ne h] by simp
  qed
  show ?thesis
    unfolding float_of_str_def st ts
    using digit_first_not_word(1-3) [OF ne h] pd by simp
qed

lemma float_underflow_pos: "0 < float_underflow"
  by (simp add: float_underflow_def)

lemma float_of_decimal_in_range:
  "float_underflow < q \<Longrightarrow> q < float_overflow \<Longrightarrow>
   float_of_decimal negative q = Fin (if negative then - q else q)"
  by (simp add: float_of_decimal_def)

text \<open>
  For every value of a float, \<open>float\<close> reads back from the text that \<open>str\<close> writes the
  value itself.
\<close>

lemma float_str_reads_back:
  assumes "float_value v"
  shows "float_of_str (float_str v) = Some v"
proof (cases v)
  case (Fin r)
  show ?thesis
  proof (cases "r = 0")
    case True
    have "float_of_str ''0.0'' = Some (Fin 0)" by code_simp
    with True Fin show ?thesis by simp
  next
    case False
    then have pos: "0 < \<bar>r\<bar>" by simp
    from assms Fin False obtain j where dp: "dec_places (nat (snd (quotient_of \<bar>r\<bar>))) = Some j"
      and range: "float_underflow < \<bar>r\<bar>" "\<bar>r\<bar> < float_overflow"
      by (auto simp: float_value_def split: option.splits)
    obtain ds p where sd: "shortest_digits \<bar>r\<bar> = (ds, p)"
      by (cases "shortest_digits \<bar>r\<bar>")
    note sv = shortest_digits_value [OF pos dp sd]
    note en = format_repr_ends [OF sv(1,2), of p]
    have pd: "parse_decimal (format_repr ds p) = Some \<bar>r\<bar>"
      using parse_decimal_format_repr [OF sv(1,2), of p] sv(3) by simp
    have fs: "float_str (Fin r) = (if r < 0 then ''-'' else []) @ format_repr ds p"
      using False sd by simp
    have "float_of_str (float_str (Fin r)) = Some (float_of_decimal (r < 0) \<bar>r\<bar>)"
      unfolding fs by (rule float_of_str_signed [OF en pd])
    also have "float_of_decimal (r < 0) \<bar>r\<bar> = Fin (if r < 0 then - \<bar>r\<bar> else \<bar>r\<bar>)"
      using range by (rule float_of_decimal_in_range)
    also have "(if r < 0 then - \<bar>r\<bar> else \<bar>r\<bar>) = r"
      by simp
    finally show ?thesis using Fin by simp
  qed
next
  case NZero
  have "float_of_str ''-0.0'' = Some NZero" by code_simp
  with NZero show ?thesis by simp
next
  case PInf
  have "float_of_str ''inf'' = Some PInf" by code_simp
  with PInf show ?thesis by simp
next
  case NInf
  have "float_of_str ''-inf'' = Some NInf" by code_simp
  with NInf show ?thesis by simp
next
  case NaN
  have "float_of_str ''nan'' = Some NaN" by code_simp
  with NaN show ?thesis by simp
qed

lemma float_str_ends:
  "float_str v \<noteq> []" "\<not> is_space (hd (float_str v))" "\<not> is_space (last (float_str v))"
proof -
  have "float_str v \<noteq> [] \<and> \<not> is_space (hd (float_str v)) \<and> \<not> is_space (last (float_str v))"
  proof (cases v)
    case (Fin r)
    show ?thesis
    proof (cases "r = 0")
      case True
      have "\<not> is_space (hd ''0.0'') \<and> \<not> is_space (last ''0.0'')" by code_simp
      with True Fin show ?thesis by simp
    next
      case False
      obtain ds p where sd: "shortest_digits \<bar>r\<bar> = (ds, p)"
        by (cases "shortest_digits \<bar>r\<bar>")
      let ?b = "format_repr ds p"
      have fs: "float_str (Fin r) = (if r < 0 then ''-'' else []) @ ?b"
        using False sd by simp
      have sub: "set (float_str (Fin r)) \<subseteq> digit_set \<union> set ''.e+-infa''"
        by (rule set_float_str)
      have plain: "\<not> is_space c" if "c \<in> digit_set \<union> set ''.e+-infa''" for c
        using that by (auto simp: digit_set_def is_space_def)
      have ne: "float_str (Fin r) \<noteq> []"
      proof (cases "r < 0")
        case True
        then show ?thesis unfolding fs by simp
      next
        case nonneg: False
        have "ds \<noteq> [] \<or> ?b \<noteq> []"
          by (auto simp: format_repr_def)
        moreover have "?b \<noteq> []" if "ds \<noteq> []"
          using that by (auto simp: format_repr_def)
        ultimately have "?b \<noteq> []" by blast
        then show ?thesis unfolding fs by simp
      qed
      then have "hd (float_str (Fin r)) \<in> set (float_str (Fin r))"
        "last (float_str (Fin r)) \<in> set (float_str (Fin r))"
        by simp_all
      with sub plain ne Fin show ?thesis by blast
    qed
  next
    case NZero
    have "\<not> is_space (hd ''-0.0'') \<and> \<not> is_space (last ''-0.0'')" by code_simp
    with NZero show ?thesis by simp
  next
    case PInf
    have "\<not> is_space (hd ''inf'') \<and> \<not> is_space (last ''inf'')" by code_simp
    with PInf show ?thesis by simp
  next
    case NInf
    have "\<not> is_space (hd ''-inf'') \<and> \<not> is_space (last ''-inf'')" by code_simp
    with NInf show ?thesis by simp
  next
    case NaN
    have "\<not> is_space (hd ''nan'') \<and> \<not> is_space (last ''nan'')" by code_simp
    with NaN show ?thesis by simp
  qed
  then show "float_str v \<noteq> []" "\<not> is_space (hd (float_str v))"
    "\<not> is_space (last (float_str v))"
    by simp_all
qed

lemma float_str_examples:
  "float_str (Fin 5000) = ''5000.0''
   \<and> float_str (Fin (1 / 20)) = ''0.05''
   \<and> float_str (Fin (- 5 / 2)) = ''-2.5''
   \<and> float_str (Fin (1 / 100000)) = ''1e-05''
   \<and> float_str (Fin (10 ^ 16)) = ''1e+16''
   \<and> float_str (Fin 0) = ''0.0''
   \<and> float_str NZero = ''-0.0''
   \<and> float_of_str ''-0'' = Some NZero
   \<and> float_of_str ''0.05'' = Some (Fin (1 / 20))
   \<and> float_of_str ''1e-05'' = Some (Fin (1 / 100000))
   \<and> float_of_str ''1_0'' = Some (Fin 10)
   \<and> float_of_str ''-Infinity'' = Some NInf"
  by code_simp

lemma strip_float_str: "strip (float_str v) = float_str v"
  using float_str_ends [of v] by (intro strip_id) simp

subsection \<open>The values that \<open>float\<close> returns\<close>

lemma parse_mantissa_decimal:
  assumes "parse_mantissa m = Some q"
  shows "0 \<le> q \<and> (\<exists>K z. q * 10 ^ K = of_int z)"
proof -
  obtain ip t where sp: "split_first (\<lambda>c. c = CHR ''.'') m = (ip, t)"
    by (cases "split_first (\<lambda>c. c = CHR ''.'') m")
  show ?thesis
  proof (cases t)
    case None
    with assms sp obtain d where "q = of_nat (digits_value d)"
      by (auto simp: parse_mantissa_def simp del: digits_value.simps)
    then have "0 \<le> q" "q * 10 ^ 0 = of_int (int (digits_value d))"
      by simp_all
    then show ?thesis by blast
  next
    case (Some fp)
    let ?I = "if ip = [] then Some [] else digitpart ip"
    let ?F = "if fp = [] then Some [] else digitpart fp"
    from assms sp Some have nb: "\<not> (ip = [] \<and> fp = [])"
      by (auto simp: parse_mantissa_def)
    from assms have "(if ip = [] \<and> fp = [] then None
           else (case (?I, ?F) of
                   (Some i, Some f) \<Rightarrow>
                     Some (of_nat (digits_value i) + of_nat (digits_value f) / 10 ^ length f)
                 | _ \<Rightarrow> None)) = Some q"
      unfolding parse_mantissa_def sp Some by (simp only: prod.case option.case)
    with nb have c: "(case (?I, ?F) of
                   (Some i, Some f) \<Rightarrow>
                     Some (of_nat (digits_value i) + of_nat (digits_value f) / 10 ^ length f)
                 | _ \<Rightarrow> None) = Some q"
      by (simp only: if_False)
    obtain i where I: "?I = Some i"
      using c by (cases ?I) (simp_all only: prod.case option.case option.distinct)
    obtain f where F: "?F = Some f"
      using c unfolding I by (cases ?F) (simp_all only: prod.case option.case option.distinct)
    have q: "q = of_nat (digits_value i) + of_nat (digits_value f) / 10 ^ length f"
      using c unfolding I F by (simp only: prod.case option.case option.inject)
    have "0 \<le> q" unfolding q by simp
    moreover have "q * 10 ^ length f =
        of_int (int (digits_value i * 10 ^ length f + digits_value f))"
      unfolding q by (simp add: field_simps del: digits_value.simps)
    ultimately show ?thesis by blast
  qed
qed

lemma pow10_decimal: "\<exists>K z. pow10 e * 10 ^ K = of_int z"
proof (cases "0 \<le> e")
  case True
  then have "pow10 e * 10 ^ 0 = of_int (10 ^ nat e)"
    by (simp add: pow10_def)
  then show ?thesis by blast
next
  case False
  then have "pow10 e * 10 ^ nat (- e) = of_int 1"
    by (simp add: pow10_def)
  then show ?thesis by blast
qed

lemma parse_decimal_decimal:
  assumes "parse_decimal body = Some q"
  shows "0 \<le> q \<and> (\<exists>K z. q * 10 ^ K = of_int z)"
proof -
  from assms obtain m t qm e where
    pm: "parse_mantissa m = Some qm" and q: "q = qm * pow10 e"
    by (auto simp: parse_decimal_def split: prod.splits option.splits)
  from parse_mantissa_decimal [OF pm] obtain K1 z1 where
    nn: "0 \<le> qm" and d1: "qm * 10 ^ K1 = of_int z1"
    by blast
  from pow10_decimal [of e] obtain K2 z2 where d2: "pow10 e * 10 ^ K2 = of_int z2"
    by blast
  have "q * 10 ^ (K1 + K2) = (qm * 10 ^ K1) * (pow10 e * 10 ^ K2)"
    unfolding q by (simp add: power_add)
  also have "\<dots> = of_int (z1 * z2)"
    unfolding d1 d2 by simp
  finally have "q * 10 ^ (K1 + K2) = of_int (z1 * z2)" .
  moreover have "0 \<le> q"
    unfolding q using nn pow10_pos [of e] by (simp add: less_imp_le)
  ultimately show ?thesis by blast
qed

lemma float_of_decimal_value:
  assumes nn: "0 \<le> q" and dec: "\<exists>K z. q * 10 ^ K = of_int z"
  shows "float_value (float_of_decimal negative q)"
proof -
  consider (over) "float_overflow \<le> q"
    | (under) "\<not> float_overflow \<le> q" "q \<le> float_underflow"
    | (range) "\<not> float_overflow \<le> q" "\<not> q \<le> float_underflow"
    by blast
  then show ?thesis
  proof cases
    case over
    then show ?thesis
      by (simp add: float_of_decimal_def float_value_def signed_inf_def)
  next
    case under
    then show ?thesis
      by (simp add: float_of_decimal_def float_value_def signed_zero_def)
  next
    case range
    let ?r = "if negative then - q else q"
    have qpos: "0 < q"
      using range(2) float_underflow_pos by simp
    have ab: "\<bar>?r\<bar> = q"
      using nn by simp
    from dec obtain K z where "q * 10 ^ K = of_int z"
      by blast
    then have dv: "snd (quotient_of q) dvd 10 ^ K"
      by (rule denominator_dvd)
    have dpos: "0 < snd (quotient_of q)"
      using quotient_of_denom_pos [of q] by (cases "quotient_of q") simp
    have "int (nat (snd (quotient_of q))) dvd int (10 ^ K)"
      using dv dpos by simp
    then have "nat (snd (quotient_of q)) dvd 10 ^ K"
      by (simp only: int_dvd_int_iff)
    moreover have "0 < nat (snd (quotient_of q))"
      using dpos by simp
    ultimately have "dec_places (nat (snd (quotient_of q))) \<noteq> None"
      by (intro dec_places_complete)
    then obtain j where j: "dec_places (nat (snd (quotient_of q))) = Some j"
      by blast
    have fd: "float_of_decimal negative q = Fin ?r"
      using range by (simp add: float_of_decimal_def)
    have "?r \<noteq> 0" using qpos by simp
    then show ?thesis
      unfolding fd float_value_def using range
      by (simp only: pyfloat.case if_False ab j option.case) simp
  qed
qed

lemma float_of_str_float_value:
  assumes "float_of_str s = Some v"
  shows "float_value v"
proof -
  obtain neg body where ts: "take_sign (strip_number s) = (neg, body)"
    by (cases "take_sign (strip_number s)")
  consider (inf) "lower body = ''inf'' \<or> lower body = ''infinity''"
    | (nan) "\<not> (lower body = ''inf'' \<or> lower body = ''infinity'')" "lower body = ''nan''"
    | (num) "\<not> (lower body = ''inf'' \<or> lower body = ''infinity'')" "lower body \<noteq> ''nan''"
    by blast
  then show ?thesis
  proof cases
    case inf
    with assms ts have "v = signed_inf neg"
      by (simp add: float_of_str_def)
    then show ?thesis by (simp add: float_value_def signed_inf_def)
  next
    case nan
    with assms ts have "v = NaN"
      by (simp add: float_of_str_def)
    then show ?thesis by (simp add: float_value_def)
  next
    case num
    with assms ts obtain q where pd: "parse_decimal body = Some q"
      and v: "v = float_of_decimal neg q"
      by (auto simp: float_of_str_def)
    from parse_decimal_decimal [OF pd] show ?thesis
      unfolding v by (intro float_of_decimal_value) blast+
  qed
qed

lemma budget_loop_float_value:
  "budget_loop today w = (Inr b, w') \<Longrightarrow> float_value b"
proof (induction today w rule: budget_loop.induct)
  case (1 today w)
  obtain r w1 where i: "input (Ask_budget today) w = (r, w1)"
    by (cases "input (Ask_budget today) w")
  show ?case
  proof (cases r)
    case (Inl e)
    with 1(3) i show ?thesis
      by (subst (asm) budget_loop.simps) simp
  next
    case (Inr s)
    show ?thesis
    proof (cases "float_of_str s")
      case None
      with 1(3) i Inr have "budget_loop today (print Invalid_number w1) = (Inr b, w')"
        by (subst (asm) budget_loop.simps) simp
      with 1(1) i Inr None show ?thesis by simp
    next
      case (Some x)
      show ?thesis
      proof (cases "float_lt x (Fin 0)")
        case True
        with 1(3) i Inr Some
        have "budget_loop today (print Budget_must_be_positive w1) = (Inr b, w')"
          by (subst (asm) budget_loop.simps) simp
        with 1(2) i Inr Some True show ?thesis by simp
      next
        case False
        with 1(3) i Inr Some have "b = x"
          by (subst (asm) budget_loop.simps) simp
        with Some show ?thesis by (simp add: float_of_str_float_value)
      qed
    qed
  qed
qed

lemma amount_loop_float_value:
  "amount_loop w = (Inr a, w') \<Longrightarrow> float_value a"
proof (induction w rule: amount_loop.induct)
  case (1 w)
  obtain r w1 where i: "input Ask_amount w = (r, w1)"
    by (cases "input Ask_amount w")
  show ?case
  proof (cases r)
    case (Inl e)
    with 1(3) i show ?thesis
      by (subst (asm) amount_loop.simps) simp
  next
    case (Inr s)
    show ?thesis
    proof (cases "float_of_str s")
      case None
      with 1(3) i Inr have "amount_loop (print Invalid_number w1) = (Inr a, w')"
        by (subst (asm) amount_loop.simps) simp
      with 1(1) i Inr None show ?thesis by simp
    next
      case (Some x)
      show ?thesis
      proof (cases "float_lt x (Fin 0)")
        case True
        with 1(3) i Inr Some
        have "amount_loop (print Amount_must_be_positive w1) = (Inr a, w')"
          by (subst (asm) amount_loop.simps) simp
        with 1(2) i Inr Some True show ?thesis by simp
      next
        case False
        with 1(3) i Inr Some have "a = x"
          by (subst (asm) amount_loop.simps) simp
        with Some show ?thesis by (simp add: float_of_str_float_value)
      qed
    qed
  qed
qed

lemma category_loop_result:
  "category_loop nm amt w = (Inr e, w') \<Longrightarrow>
   name e = nm \<and> amount e = amt \<and> category e \<in> set (map fst EXPENSE_CATEGORIES)"
proof (induction nm amt w rule: category_loop.induct)
  case (1 nm amt w)
  obtain r w1 where i: "input (Ask_choice (length EXPENSE_CATEGORIES)) (print_menu w) = (r, w1)"
    by (cases "input (Ask_choice (length EXPENSE_CATEGORIES)) (print_menu w)")
  show ?case
  proof (cases r)
    case (Inl x)
    with 1(3) i show ?thesis
      by (subst (asm) category_loop.simps) simp
  next
    case (Inr s)
    show ?thesis
    proof (cases "int_of_str s")
      case None
      with 1(3) i Inr have "category_loop nm amt (print Please_enter_number w1) = (Inr e, w')"
        by (subst (asm) category_loop.simps) simp
      with 1(1) i Inr None show ?thesis by simp
    next
      case (Some n)
      show ?thesis
      proof (cases "0 \<le> n - 1 \<and> n - 1 < int (length EXPENSE_CATEGORIES)")
        case True
        with 1(3) i Inr Some
        have e: "e = \<lparr>name = nm, category = fst (EXPENSE_CATEGORIES ! nat (n - 1)), amount = amt\<rparr>"
          by (subst (asm) category_loop.simps) (simp add: Let_def)
        from True have "0 \<le> n - 1" "n - 1 < int (length EXPENSE_CATEGORIES)"
          by simp_all
        then have "nat (n - 1) < length EXPENSE_CATEGORIES"
          by (simp only: nat_less_iff)
        then have "EXPENSE_CATEGORIES ! nat (n - 1) \<in> set EXPENSE_CATEGORIES"
          by (rule nth_mem)
        then show ?thesis unfolding e by simp
      next
        case False
        with 1(3) i Inr Some
        have "category_loop nm amt (print Invalid_selection w1) = (Inr e, w')"
          by (subst (asm) category_loop.simps) (auto simp: Let_def split: if_splits)
        with 1(2) [OF i [symmetric] Inr Some refl] False show ?thesis by simp
      qed
    qed
  qed
qed

text \<open>
  Every expense that \<open>get_user_expense\<close> returns has a catalog category and an amount
  that is the value of a float.
\<close>

lemma get_user_expense_result:
  assumes "get_user_expense w = (Inr e, w')"
  shows "float_value (amount e)" "category e \<in> set (map fst EXPENSE_CATEGORIES)"
proof -
  obtain r w1 where i: "input Ask_name (print Enter_new_expense w) = (r, w1)"
    by (cases "input Ask_name (print Enter_new_expense w)")
  from assms i obtain s where r: "r = Inr s"
    by (cases r) (auto simp: get_user_expense_def)
  obtain ra w2 where al: "amount_loop w1 = (ra, w2)"
    by (cases "amount_loop w1")
  from assms i r al obtain amt where ra: "ra = Inr amt"
    by (cases ra) (auto simp: get_user_expense_def Let_def)
  from assms i r al ra have cl: "category_loop (strip s) amt w2 = (Inr e, w')"
    by (simp add: get_user_expense_def Let_def)
  note res = category_loop_result [OF cl]
  have "float_value amt"
    using al ra by (intro amount_loop_float_value [of w1 amt w2]) simp
  with res show "float_value (amount e)" "category e \<in> set (map fst EXPENSE_CATEGORIES)"
    by simp_all
qed


subsection \<open>Resolving the budget twice\<close>

lemma fresh_budget_writes:
  assumes "(case budget_loop today w0 of
              (Inl e, w') \<Rightarrow> (Inl e, w')
            | (Inr new_budget, w') \<Rightarrow>
                (Inr new_budget, write_text p (float_str new_budget) w')) = (Inr b, w1)"
  shows "files w1 p = Some (float_str b) \<and> float_value b"
proof -
  obtain r w' where bl: "budget_loop today w0 = (r, w')"
    by (cases "budget_loop today w0")
  from assms bl obtain x where r: "r = Inr x"
    by (cases r) auto
  from assms bl r have "b = x" "w1 = write_text p (float_str x) w'"
    by auto
  moreover have "float_value x"
    using bl r by (intro budget_loop_float_value [of today w0 x w']) simp
  ultimately show ?thesis by (simp add: write_text_def)
qed

lemma load_or_create_budget_writes:
  assumes first: "load_or_create_budget today w = (Inr b, w1)"
    and absent: "files w (budget_file_for today) = None"
  shows "files w1 (budget_file_for today) = Some (float_str b) \<and> float_value b"
proof (cases "prev_month_date today")
  case (Inl e)
  with first absent show ?thesis by (simp add: load_or_create_budget_def)
next
  case (Inr pm)
  show ?thesis
  proof (cases "if day today = 1 then files w (budget_file_for pm) else None")
    case None
    with first absent Inr show ?thesis
      by (simp add: load_or_create_budget_def Let_def fresh_budget_writes)
  next
    case (Some ptext)
    show ?thesis
    proof (cases "float_of_str (strip ptext)")
      case None
      with first absent Inr Some show ?thesis
        by (simp add: load_or_create_budget_def Let_def)
    next
      case pv: (Some v)
      have fv: "float_value v"
        using pv by (rule float_of_str_float_value)
      obtain r w' where i: "input (Ask_same_budget today v) w = (r, w')"
        by (cases "input (Ask_same_budget today v) w")
      show ?thesis
      proof (cases r)
        case (Inl e)
        with first absent Inr Some pv i show ?thesis
          by (simp add: load_or_create_budget_def Let_def)
      next
        case a: (Inr ans)
        show ?thesis
        proof (cases "lower (strip ans) = ''y''")
          case True
          with first absent Inr Some pv i a fv show ?thesis
            by (auto simp: load_or_create_budget_def Let_def write_text_def)
        next
          case False
          with first absent Inr Some pv i a show ?thesis
            by (simp add: load_or_create_budget_def Let_def fresh_budget_writes)
        qed
      qed
    qed
  qed
qed




subsection \<open>Appending an expense and reading it back\<close>





end
